theory Spec2Isabelle
  imports Complex_Main "HOL-Library.Sublist" "HOL-Library.List_Lexorder" "HOL-Library.Char_ord"
begin

section \<open>Python strings and paths\<close>

text \<open>
  A Python \<open>str\<close> is modelled as a \<^typ>\<open>string\<close>: a list of characters, one per code
  point, for code points below 256. \<open>len\<close> is \<^const>\<open>length\<close>. The character classes
  below are Python's on that range.
\<close>

definition py_isspace :: "char \<Rightarrow> bool" where
  \<comment> \<open>\<open>str.isspace\<close> and the regex class \<open>\s\<close>: tab to carriage return, the four
      separators 0x1C to 0x1F, space, NEL and the no-break space.\<close>
  "py_isspace c = (of_char c \<in> {9, 10, 11, 12, 13, 28, 29, 30, 31, 32, 133, 160 :: nat})"

definition py_isword :: "char \<Rightarrow> bool" where
  \<comment> \<open>the regex class \<open>\w\<close>: \<open>str.isalnum\<close> or the underscore.\<close>
  "py_isword c = (let n = (of_char c :: nat) in
     (48 \<le> n \<and> n \<le> 57) \<or> (65 \<le> n \<and> n \<le> 90) \<or> n = 95 \<or> (97 \<le> n \<and> n \<le> 122)
     \<or> n \<in> {170, 178, 179, 181, 185, 186, 188, 189, 190}
     \<or> (192 \<le> n \<and> n \<noteq> 215 \<and> n \<noteq> 247))"

definition py_lower_char :: "char \<Rightarrow> char" where
  \<comment> \<open>\<open>str.lower\<close> on one code point: the ASCII capitals and the Latin-1 capitals
      0xC0 to 0xDE (the multiplication sign 0xD7 apart) move up by 32.\<close>
  "py_lower_char c = (let n = (of_char c :: nat) in
     if (65 \<le> n \<and> n \<le> 90) \<or> (192 \<le> n \<and> n \<le> 222 \<and> n \<noteq> 215)
     then char_of (n + 32) else c)"

definition py_lower :: "string \<Rightarrow> string" where
  "py_lower s = map py_lower_char s"

definition py_strip :: "string \<Rightarrow> string" where
  \<comment> \<open>\<open>str.strip()\<close>: leading and trailing whitespace removed.\<close>
  "py_strip s = rev (dropWhile py_isspace (rev (dropWhile py_isspace s)))"

fun occurs :: "string \<Rightarrow> string \<Rightarrow> bool" where
  \<comment> \<open>\<open>sub in s\<close>.\<close>
  "occurs sub [] = (sub = [])"
| "occurs sub (c # cs) = (prefix sub (c # cs) \<or> occurs sub cs)"

fun ci_prefix :: "string \<Rightarrow> string \<Rightarrow> bool" where
  \<comment> \<open>a literal of a pattern compiled with \<open>re.IGNORECASE\<close>, matched at the start of
      the text: on code points below 256 two characters match when their lower-case
      forms are equal.\<close>
  "ci_prefix [] s = True"
| "ci_prefix (p # ps) [] = False"
| "ci_prefix (p # ps) (c # cs) = (py_lower_char c = py_lower_char p \<and> ci_prefix ps cs)"

fun replace_from :: "nat \<Rightarrow> string \<Rightarrow> string \<Rightarrow> string \<Rightarrow> string" where
  \<comment> \<open>the scan of \<open>str.replace\<close> for a non-empty \<open>old\<close>; the first argument counts
      the characters of the current occurrence still to be passed over.\<close>
  "replace_from k old new [] = []"
| "replace_from (Suc k) old new (c # cs) = replace_from k old new cs"
| "replace_from 0 old new (c # cs) =
     (if prefix old (c # cs) then new @ replace_from (length old - 1) old new cs
      else c # replace_from 0 old new cs)"

definition py_replace :: "string \<Rightarrow> string \<Rightarrow> string \<Rightarrow> string" where
  \<comment> \<open>\<open>s.replace(old, new)\<close>: every non-overlapping occurrence, from the left; an
      empty \<open>old\<close> puts \<open>new\<close> before every character and at the end.\<close>
  "py_replace old new s =
     (if old = [] then new @ concat (map (\<lambda>c. c # new) s) else replace_from 0 old new s)"

definition basename :: "string \<Rightarrow> string" where
  \<comment> \<open>\<open>os.path.basename\<close> (POSIX): what follows the last slash.\<close>
  "basename p = rev (takeWhile (\<lambda>c. c \<noteq> CHR ''/'') (rev p))"

definition dirname :: "string \<Rightarrow> string" where
  \<comment> \<open>\<open>os.path.dirname\<close> (POSIX): up to the last slash, trailing slashes removed
      unless nothing else remains.\<close>
  "dirname p =
     (let head = rev (dropWhile (\<lambda>c. c \<noteq> CHR ''/'') (rev p)) in
      if head \<noteq> [] \<and> \<not> list_all (\<lambda>c. c = CHR ''/'') head
      then rev (dropWhile (\<lambda>c. c = CHR ''/'') (rev head)) else head)"

definition path_join :: "string \<Rightarrow> string \<Rightarrow> string" where
  \<comment> \<open>\<open>os.path.join\<close> of two components (POSIX).\<close>
  "path_join a b =
     (if prefix ''/'' b then b
      else if a = [] \<or> suffix ''/'' a then a @ b
      else a @ ''/'' @ b)"

section \<open>Errors and the file system\<close>

datatype error =
    FileNotFoundError string
  | IsADirectoryError string
  | ValueError string
  | TypeError string
  | ParseError string
  | ZeroDivisionError string
  | CollaboratorError string

datatype node = File string | Dir

type_synonym fs = "string \<Rightarrow> node option"

definition path_exists :: "fs \<Rightarrow> string \<Rightarrow> bool" where
  \<comment> \<open>\<open>os.path.exists\<close>.\<close>
  "path_exists disk p = (disk p \<noteq> None)"

definition read_text :: "fs \<Rightarrow> string \<Rightarrow> error + string" where
  \<comment> \<open>\<open>open(p, 'r', encoding='utf-8', errors='replace').read()\<close>: the decoded text
      of a regular file (decoding cannot fail); a directory and a missing path raise.\<close>
  "read_text disk p =
     (case disk p of
        None \<Rightarrow> Inl (FileNotFoundError p)
      | Some Dir \<Rightarrow> Inl (IsADirectoryError p)
      | Some (File content) \<Rightarrow> Inr content)"

section \<open>The package document\<close>

text \<open>
  An element of \<open>xml.etree.ElementTree\<close>: its tag in Clark notation
  (\<open>{namespace}local\<close>), its attributes, its text and its children. \<open>root.iter(tag)\<close>
  walks the element and its descendants in document order.
\<close>

datatype xml = Element (tag: string) (attrib: "(string \<times> string) list")
                       (elem_text: "string option") (children: "xml list")

fun iter_all :: "xml \<Rightarrow> xml list" where
  "iter_all (Element t a x cs) = Element t a x cs # concat (map iter_all cs)"

definition iter :: "string \<Rightarrow> xml \<Rightarrow> xml list" where
  "iter t opf_root = filter (\<lambda>e. tag e = t) (iter_all opf_root)"

definition get_attr :: "xml \<Rightarrow> string \<Rightarrow> string option" where
  \<comment> \<open>\<open>elem.get(key)\<close>.\<close>
  "get_attr e k = map_of (attrib e) k"

definition dc_ns :: string where
  "dc_ns = ''http://purl.org/dc/elements/1.1/''"

definition dc_tag :: "string \<Rightarrow> string" where
  \<comment> \<open>the f-string \<open>{dc_ns}name\<close> in braces.\<close>
  "dc_tag name = ''{'' @ dc_ns @ ''}'' @ name"

type_synonym metadata = "string \<rightharpoonup> string option"

definition store_each :: "string \<Rightarrow> xml list \<Rightarrow> metadata \<Rightarrow> metadata" where
  \<comment> \<open>\<open>for elem in elems: metadata[key] = elem.text\<close>.\<close>
  "store_each key elems m = fold (\<lambda>elem m'. m'(key \<mapsto> elem_text elem)) elems m"

definition parse_metadata :: "xml \<Rightarrow> metadata" where
  \<comment> \<open>lines 80 to 85 of \<open>parse_opf\<close>.\<close>
  "parse_metadata opf_root =
     store_each ''creator'' (iter (dc_tag ''creator'') opf_root)
       (store_each ''title'' (iter (dc_tag ''title'') opf_root) Map.empty)"

definition two_titles :: xml where
  "two_titles =
     Element ''{http://www.idpf.org/2007/opf}package'' [] None
       [Element ''{http://www.idpf.org/2007/opf}metadata'' [] None
          [Element (dc_tag ''title'') [] (Some ''First'') [],
           Element (dc_tag ''title'') [] (Some ''Second'') [],
           Element (dc_tag ''creator'') [] (Some ''Ann'') [],
           Element (dc_tag ''creator'') [] (Some ''Bob'') []]]"


section \<open>Cover synthesis: page and crop geometry\<close>

text \<open>
  Python's \<open>float\<close> is IEEE binary64. A finite double is a rational number, and every
  arithmetic operation returns the exact result rounded to the nearest double, ties to
  the even significand. \<open>fl\<close> is that rounding for magnitudes in the normal range
  (between \<open>2^-1022\<close> and \<open>2^1024\<close>), which is where pixel counts and their quotients
  lie.
\<close>

fun bit_length :: "nat \<Rightarrow> nat" where
  "bit_length n = (if n = 0 then 0 else Suc (bit_length (n div 2)))"

declare bit_length.simps [simp del]

definition floor_log2 :: "rat \<Rightarrow> int" where
  \<comment> \<open>for \<open>0 < x\<close>, the exponent \<open>k\<close> with \<open>2^k \<le> x < 2^(k+1)\<close>.\<close>
  "floor_log2 x = (if 1 \<le> x then int (bit_length (nat \<lfloor>x\<rfloor>)) - 1
                   else - int (bit_length (nat (\<lceil>1 / x\<rceil> - 1))))"

definition round_half_even :: "rat \<Rightarrow> int" where
  "round_half_even x = (let f = \<lfloor>x\<rfloor>; d = x - of_int f in
     if d < 1 / 2 then f else if 1 / 2 < d then f + 1 else if even f then f else f + 1)"

definition fl :: "rat \<Rightarrow> rat" where
  \<comment> \<open>round to 53 significant bits.\<close>
  "fl x = (if x = 0 then 0 else
     let e = floor_log2 \<bar>x\<bar> - 52;
         m = round_half_even (\<bar>x\<bar> * 2 powi (- e))
     in sgn x * of_int m * 2 powi e)"

definition py_int :: "rat \<Rightarrow> int" where
  \<comment> \<open>\<open>int(x)\<close> of a float: truncation towards zero.\<close>
  "py_int x = (if 0 \<le> x then \<lfloor>x\<rfloor> else \<lceil>x\<rceil>)"

definition int_truediv :: "int \<Rightarrow> int \<Rightarrow> error + rat" where
  \<comment> \<open>\<open>a / b\<close> on two ints: the correctly rounded quotient.\<close>
  "int_truediv a b =
     (if b = 0 then Inl (ZeroDivisionError ''division by zero'')
      else Inr (fl (of_int a / of_int b)))"

record cover_layout =
  page_w_px :: int
  page_h_px :: int
  new_w :: int
  new_h :: int
  left :: int
  top :: int

definition crop_box :: "cover_layout \<Rightarrow> int \<times> int \<times> int \<times> int" where
  \<comment> \<open>the box passed to \<open>img_resized.crop\<close>.\<close>
  "crop_box g = (left g, top g, left g + page_w_px g, top g + page_h_px g)"

definition cropped_left :: "cover_layout \<Rightarrow> int" where
  "cropped_left g = left g"

definition cropped_right :: "cover_layout \<Rightarrow> int" where
  \<comment> \<open>columns of the resized image to the right of the crop box.\<close>
  "cropped_right g = new_w g - (left g + page_w_px g)"

definition cropped_top :: "cover_layout \<Rightarrow> int" where
  "cropped_top g = top g"

definition cropped_bottom :: "cover_layout \<Rightarrow> int" where
  "cropped_bottom g = new_h g - (top g + page_h_px g)"

definition fit_to_page :: "int \<Rightarrow> int \<Rightarrow> rat \<Rightarrow> error + cover_layout" where
  \<comment> \<open>lines 132 to 147 of \<open>create_cover_pdf\<close>, from the page in pixels and the
      image's aspect ratio.\<close>
  "fit_to_page pw ph img_aspect =
     (case int_truediv pw ph of
        Inl e \<Rightarrow> Inl e
      | Inr page_aspect \<Rightarrow>
          if img_aspect > page_aspect then
            (let nh = ph; nw = py_int (fl (fl (of_int ph) * img_aspect)) in
             Inr \<lparr>page_w_px = pw, page_h_px = ph, new_w = nw, new_h = nh,
                  left = (nw - pw) div 2, top = (nh - ph) div 2\<rparr>)
          else if img_aspect = 0 then Inl (ZeroDivisionError ''float division by zero'')
          else
            (let nw = pw; nh = py_int (fl (fl (of_int pw) / img_aspect)) in
             Inr \<lparr>page_w_px = pw, page_h_px = ph, new_w = nw, new_h = nh,
                  left = (nw - pw) div 2, top = (nh - ph) div 2\<rparr>))"

definition create_cover_pdf_layout :: "rat \<Rightarrow> rat \<Rightarrow> int \<Rightarrow> int \<Rightarrow> error + cover_layout" where
  \<comment> \<open>lines 125 to 147 of \<open>create_cover_pdf\<close>: the page size in inches and the size
      of the decoded image give the resize and crop geometry.\<close>
  "create_cover_pdf_layout page_width_in page_height_in img_w img_h =
     (let dpi = 150;
          pw = py_int (fl (page_width_in * of_int dpi));
          ph = py_int (fl (page_height_in * of_int dpi))
      in case int_truediv img_w img_h of
           Inl e \<Rightarrow> Inl e
         | Inr img_aspect \<Rightarrow> fit_to_page pw ph img_aspect)"

definition default_cover_layout :: "int \<Rightarrow> int \<Rightarrow> error + cover_layout" where
  \<comment> \<open>the defaults \<open>page_width_in=5.5, page_height_in=8.5\<close>.\<close>
  "default_cover_layout img_w img_h = create_cover_pdf_layout (11 / 2) (17 / 2) img_w img_h"


section \<open>The regular expressions of the source\<close>

text \<open>
  Each pattern of the source is written out as the backtracking matcher that Python's
  \<open>re\<close> runs at one position of the text: a greedy quantifier first tries to take one
  more character and falls back to the rest of the pattern, a lazy one first tries the
  rest of the pattern and then takes one more character. A matcher returns what
  follows the match (and the group the code reads), or \<open>None\<close>. Every pattern of the
  source matches at least one character.
\<close>

abbreviation dquote :: char where "dquote \<equiv> CHR 0x22"
abbreviation squote :: char where "squote \<equiv> CHR 0x27"

fun re_search :: "(string \<Rightarrow> 'a option) \<Rightarrow> string \<Rightarrow> 'a option" where
  \<comment> \<open>\<open>re.search\<close>: the match at the leftmost position that has one.\<close>
  "re_search m [] = m []"
| "re_search m (c # cs) = (case m (c # cs) of Some r \<Rightarrow> Some r | None \<Rightarrow> re_search m cs)"

fun sub_from :: "(string \<Rightarrow> ('g \<times> string) option) \<Rightarrow> ('g \<Rightarrow> string) \<Rightarrow> nat \<Rightarrow> string \<Rightarrow> string" where
  \<comment> \<open>the scan of \<open>re.sub\<close>; the counter is the number of characters of the current
      match still to be passed over.\<close>
  "sub_from m repl k [] = []"
| "sub_from m repl (Suc k) (c # cs) = sub_from m repl k cs"
| "sub_from m repl 0 (c # cs) =
     (case m (c # cs) of
        Some (g, rest) \<Rightarrow> repl g @ sub_from m repl (length cs - length rest) cs
      | None \<Rightarrow> c # sub_from m repl 0 cs)"

definition re_sub :: "(string \<Rightarrow> ('g \<times> string) option) \<Rightarrow> ('g \<Rightarrow> string) \<Rightarrow> string \<Rightarrow> string" where
  \<comment> \<open>\<open>re.sub(pattern, repl, s)\<close>: the non-overlapping matches from the left, each
      replaced by \<open>repl\<close> of its groups.\<close>
  "re_sub m repl s = sub_from m repl 0 s"

fun finditer_from :: "(string \<Rightarrow> ('g \<times> string) option) \<Rightarrow> nat \<Rightarrow> string \<Rightarrow> 'g list" where
  "finditer_from m k [] = []"
| "finditer_from m (Suc k) (c # cs) = finditer_from m k cs"
| "finditer_from m 0 (c # cs) =
     (case m (c # cs) of
        Some (g, rest) \<Rightarrow> g # finditer_from m (length cs - length rest) cs
      | None \<Rightarrow> finditer_from m 0 cs)"

definition re_finditer :: "(string \<Rightarrow> ('g \<times> string) option) \<Rightarrow> string \<Rightarrow> 'g list" where
  \<comment> \<open>\<open>re.finditer\<close>: the groups of the non-overlapping matches from the left.\<close>
  "re_finditer m s = finditer_from m 0 s"

fun after_first :: "char \<Rightarrow> string \<Rightarrow> string option" where
  \<comment> \<open>\<open>[^x]*x\<close>, greedy or lazy: the run cannot contain \<open>x\<close>, so it ends at the first
      \<open>x\<close> whatever the order of the trials; what follows that \<open>x\<close>.\<close>
  "after_first x [] = None"
| "after_first x (c # cs) = (if c = x then Some cs else after_first x cs)"

subsection \<open>\<open><body[^>]*>(.*?)</body>\<close> with DOTALL and IGNORECASE\<close>

fun until_body_close :: "string \<Rightarrow> (string \<times> string) option" where
  \<comment> \<open>\<open>(.*?)</body>\<close>: the group and what follows the closing tag.\<close>
  "until_body_close [] = None"
| "until_body_close (c # cs) =
     (if ci_prefix ''</body>'' (c # cs) then Some ([], drop 7 (c # cs))
      else map_option (\<lambda>(g, r). (c # g, r)) (until_body_close cs))"

definition body_at :: "string \<Rightarrow> (string \<times> string) option" where
  "body_at s =
     (if ci_prefix ''<body'' s then
        (case after_first (CHR ''>'') (drop 5 s) of
           None \<Rightarrow> None
         | Some r \<Rightarrow> until_body_close r)
      else None)"

definition search_body :: "string \<Rightarrow> string option" where
  \<comment> \<open>\<open>re.search(...)\<close> and, on a match, \<open>group(1)\<close>.\<close>
  "search_body content = map_option fst (re_search body_at content)"

subsection \<open>\<open><[^>]+>\<close>\<close>

definition tag_at :: "string \<Rightarrow> (unit \<times> string) option" where
  "tag_at s =
     (case s of
        c # d # cs \<Rightarrow>
          if c = CHR ''<'' \<and> d \<noteq> CHR ''>'' then map_option (Pair ()) (after_first (CHR ''>'') cs)
          else None
      | _ \<Rightarrow> None)"

definition strip_tags :: "string \<Rightarrow> string" where
  \<comment> \<open>\<open>re.sub(r'<[^>]+>', '', body)\<close>.\<close>
  "strip_tags body = re_sub tag_at (\<lambda>_. []) body"

subsection \<open>\<open><img\s\<close> with IGNORECASE\<close>

definition img_at :: "string \<Rightarrow> unit option" where
  "img_at s =
     (if ci_prefix ''<img'' s then
        (case drop 4 s of [] \<Rightarrow> None | c # _ \<Rightarrow> if py_isspace c then Some () else None)
      else None)"

definition search_img :: "string \<Rightarrow> bool" where
  \<comment> \<open>\<open>bool(re.search(r'<img\s', body, re.IGNORECASE))\<close>.\<close>
  "search_img body = (re_search img_at body \<noteq> None)"

subsection \<open>\<open><body[^>]*class="[^"]*cover[^"]*"\<close> with IGNORECASE\<close>

fun cover_in_quotes :: "string \<Rightarrow> bool" where
  \<comment> \<open>\<open>[^"]*cover[^"]*"\<close>.\<close>
  "cover_in_quotes [] = False"
| "cover_in_quotes (c # cs) =
     ((c \<noteq> dquote \<and> cover_in_quotes cs)
      \<or> (ci_prefix ''cover'' (c # cs) \<and> after_first dquote (drop 5 (c # cs)) \<noteq> None))"

fun class_in_tag :: "string \<Rightarrow> bool" where
  \<comment> \<open>\<open>[^>]*class="[^"]*cover[^"]*"\<close>.\<close>
  "class_in_tag [] = False"
| "class_in_tag (c # cs) =
     ((c \<noteq> CHR ''>'' \<and> class_in_tag cs)
      \<or> (ci_prefix (''class='' @ [dquote]) (c # cs) \<and> cover_in_quotes (drop 7 (c # cs))))"

definition body_class_at :: "string \<Rightarrow> unit option" where
  "body_class_at s =
     (if ci_prefix ''<body'' s \<and> class_in_tag (drop 5 s) then Some () else None)"

definition search_body_class :: "string \<Rightarrow> bool" where
  "search_body_class content = (re_search body_class_at content \<noteq> None)"

subsection \<open>\<open><link[^>]+href=["\']([^"\']+\.css)["\']\<close> with IGNORECASE\<close>

definition is_quote :: "char \<Rightarrow> bool" where
  "is_quote c = (c = dquote \<or> c = squote)"

fun css_run :: "string \<Rightarrow> (string \<times> string) option" where
  \<comment> \<open>\<open>[^"\']*\.css["\']\<close>, greedy: the text up to and with \<open>.css\<close>, and what
      follows the closing quote.\<close>
  "css_run [] = None"
| "css_run (c # cs) =
     (case (if is_quote c then None else css_run cs) of
        Some (g, r) \<Rightarrow> Some (c # g, r)
      | None \<Rightarrow>
          if ci_prefix ''.css'' (c # cs) then
            (case drop 4 (c # cs) of
               [] \<Rightarrow> None
             | q # r \<Rightarrow> if is_quote q then Some (take 4 (c # cs), r) else None)
          else None)"

definition css_group :: "string \<Rightarrow> (string \<times> string) option" where
  \<comment> \<open>\<open>([^"\']+\.css)["\']\<close>.\<close>
  "css_group s =
     (case s of
        [] \<Rightarrow> None
      | c # cs \<Rightarrow> if is_quote c then None else map_option (\<lambda>(g, r). (c # g, r)) (css_run cs))"

fun link_run :: "string \<Rightarrow> (string \<times> string) option" where
  \<comment> \<open>\<open>[^>]*href=["\']([^"\']+\.css)["\']\<close>, greedy.\<close>
  "link_run [] = None"
| "link_run (c # cs) =
     (case (if c = CHR ''>'' then None else link_run cs) of
        Some x \<Rightarrow> Some x
      | None \<Rightarrow>
          if ci_prefix ''href='' (c # cs) then
            (case drop 5 (c # cs) of
               [] \<Rightarrow> None
             | q # r \<Rightarrow> if is_quote q then css_group r else None)
          else None)"

definition link_at :: "string \<Rightarrow> (string \<times> string) option" where
  "link_at s =
     (if ci_prefix ''<link'' s then
        (case drop 5 s of
           [] \<Rightarrow> None
         | c # cs \<Rightarrow> if c = CHR ''>'' then None else link_run cs)
      else None)"

definition css_hrefs :: "string \<Rightarrow> string list" where
  \<comment> \<open>\<open>match.group(1)\<close> of every match of \<open>re.finditer\<close>, in order.\<close>
  "css_hrefs content = re_finditer link_at content"

subsection \<open>\<open></head>\<close> and \<open></?html[^>]*>\<close> with IGNORECASE\<close>

definition head_end_at :: "string \<Rightarrow> string option" where
  "head_end_at s = (if ci_prefix ''</head>'' s then Some (drop 7 s) else None)"

definition html_name_at :: "string \<Rightarrow> string option" where
  \<comment> \<open>\<open>html[^>]*>\<close>.\<close>
  "html_name_at s = (if ci_prefix ''html'' s then after_first (CHR ''>'') (drop 4 s) else None)"

definition html_tag_at :: "string \<Rightarrow> (unit \<times> string) option" where
  "html_tag_at s =
     (case s of
        [] \<Rightarrow> None
      | c # cs \<Rightarrow>
          if c = CHR ''<'' then
            (case (case cs of [] \<Rightarrow> None
                   | d # ds \<Rightarrow> if d = CHR ''/'' then html_name_at ds else None) of
               Some r \<Rightarrow> Some ((), r)
             | None \<Rightarrow> map_option (Pair ()) (html_name_at cs))
          else None)"

subsection \<open>\<open>\s+xmlns(?::\w+)?="[^"]*"\<close> and \<open>\s+epub:type="[^"]*"\<close>\<close>

fun spaces_then :: "(string \<Rightarrow> string option) \<Rightarrow> string \<Rightarrow> string option" where
  \<comment> \<open>\<open>\s*\<close>, greedy, then the rest of the pattern.\<close>
  "spaces_then k [] = k []"
| "spaces_then k (c # cs) =
     (case (if py_isspace c then spaces_then k cs else None) of
        Some r \<Rightarrow> Some r
      | None \<Rightarrow> k (c # cs))"

fun word_then :: "(string \<Rightarrow> string option) \<Rightarrow> string \<Rightarrow> string option" where
  \<comment> \<open>\<open>\w*\<close>, greedy, then the rest of the pattern.\<close>
  "word_then k [] = k []"
| "word_then k (c # cs) =
     (case (if py_isword c then word_then k cs else None) of
        Some r \<Rightarrow> Some r
      | None \<Rightarrow> k (c # cs))"

definition quoted_value :: "string \<Rightarrow> string option" where
  \<comment> \<open>\<open>="[^"]*"\<close>.\<close>
  "quoted_value s = (if prefix (''='' @ [dquote]) s then after_first dquote (drop 2 s) else None)"

definition xmlns_name :: "string \<Rightarrow> string option" where
  \<comment> \<open>\<open>xmlns(?::\w+)?="[^"]*"\<close>: the optional group is tried first.\<close>
  "xmlns_name s =
     (if prefix ''xmlns'' s then
        (case (case drop 5 s of
                 c # d # ds \<Rightarrow>
                   if c = CHR '':'' \<and> py_isword d then word_then quoted_value ds else None
               | _ \<Rightarrow> None) of
           Some r \<Rightarrow> Some r
         | None \<Rightarrow> quoted_value (drop 5 s))
      else None)"

definition xmlns_at :: "string \<Rightarrow> (unit \<times> string) option" where
  "xmlns_at s =
     (case s of
        [] \<Rightarrow> None
      | c # cs \<Rightarrow> if py_isspace c then map_option (Pair ()) (spaces_then xmlns_name cs) else None)"

definition epub_type_name :: "string \<Rightarrow> string option" where
  "epub_type_name s =
     (if prefix (''epub:type='' @ [dquote]) s then after_first dquote (drop 11 s) else None)"

definition epub_type_at :: "string \<Rightarrow> (unit \<times> string) option" where
  "epub_type_at s =
     (case s of
        [] \<Rightarrow> None
      | c # cs \<Rightarrow>
          if py_isspace c then map_option (Pair ()) (spaces_then epub_type_name cs) else None)"

subsection \<open>\<open>href="([^"#]+?\.xhtml)(?:#([^"]*?))?"\<close>\<close>

definition link_tail :: "string \<Rightarrow> string option" where
  \<comment> \<open>\<open>(?:#([^"]*?))?"\<close>: the optional fragment is tried first; without it the
      closing quote must come at once.\<close>
  "link_tail s =
     (case (case s of [] \<Rightarrow> None
            | c # cs \<Rightarrow> if c = CHR ''#'' then after_first dquote cs else None) of
        Some r \<Rightarrow> Some r
      | None \<Rightarrow> (case s of [] \<Rightarrow> None | c # cs \<Rightarrow> if c = dquote then Some cs else None))"

fun xhtml_lazy :: "string \<Rightarrow> (string \<times> string) option" where
  \<comment> \<open>\<open>[^"#]*?\.xhtml\<close> and the tail, lazy: group 1 from here on, and what follows
      the match.\<close>
  "xhtml_lazy [] = None"
| "xhtml_lazy (c # cs) =
     (case (if prefix ''.xhtml'' (c # cs) then link_tail (drop 6 (c # cs)) else None) of
        Some r \<Rightarrow> Some (''.xhtml'', r)
      | None \<Rightarrow>
          if c \<noteq> dquote \<and> c \<noteq> CHR ''#''
          then map_option (\<lambda>(g, r). (c # g, r)) (xhtml_lazy cs) else None)"

definition href_at :: "string \<Rightarrow> (string \<times> string) option" where
  \<comment> \<open>the whole pattern: group 1 and what follows the match.\<close>
  "href_at s =
     (if prefix (''href='' @ [dquote]) s then
        (case drop 6 s of
           [] \<Rightarrow> None
         | c # cs \<Rightarrow>
             if c \<noteq> dquote \<and> c \<noteq> CHR ''#''
             then map_option (\<lambda>(g, r). (c # g, r)) (xhtml_lazy cs) else None)
      else None)"

definition anchor_href :: "string \<Rightarrow> string" where
  \<comment> \<open>the replacement \<open>lambda m: f'href="#{m.group(1).replace(".xhtml", "")}"'\<close>.\<close>
  "anchor_href g = ''href='' @ [dquote] @ ''#'' @ py_replace ''.xhtml'' [] g @ [dquote]"

definition rewrite_links :: "string \<Rightarrow> string" where
  \<comment> \<open>lines 255 to 259 of \<open>build_combined_html\<close>.\<close>
  "rewrite_links body_html = re_sub href_at anchor_href body_html"


section \<open>The Cover-Page Detector\<close>

record item =
  href :: string
  media_type :: string
  properties :: string
  full_path :: string

definition cover_checks :: "string \<Rightarrow> bool" where
  \<comment> \<open>lines 177 to 188 of \<open>is_cover_page\<close>, on the text that was read: \<open>True\<close> is a
      \<open>return True\<close>, \<open>False\<close> is leaving the \<open>try\<close> block at its end.\<close>
  "cover_checks content =
     (if (case search_body content of
            None \<Rightarrow> False
          | Some g \<Rightarrow>
              (let body = py_strip g;
                   text_content = py_strip (strip_tags body);
                   has_img = search_img body
               in has_img \<and> length text_content < 100))
      then True
      else if search_body_class content then True
      else False)"

definition is_cover_page :: "fs \<Rightarrow> string \<Rightarrow> item \<Rightarrow> bool" where
  \<comment> \<open>an exception raised while reading is caught by \<open>except Exception: pass\<close>, and
      the function then returns \<open>False\<close>.\<close>
  "is_cover_page disk html_path it =
     (let href_lower = py_lower (href it) in
      if \<not> occurs ''cover'' (basename href_lower) then False
      else (case read_text disk html_path of
              Inl e \<Rightarrow> False
            | Inr content \<Rightarrow> cover_checks content))"

section \<open>The Document Flattener\<close>

record block =
  anchor_id :: string
  cls :: string
  body_html :: string

definition render_block :: "block \<Rightarrow> string" where
  \<comment> \<open>the f-string appended to \<open>all_bodies\<close>.\<close>
  \<open>render_block b =
     ''<div id="'' @ anchor_id b @ ''" class="'' @ cls b @ ''">\<newline>'' @ body_html b
       @ ''\<newline></div>\<newline>''\<close>

definition extract_body :: "string \<Rightarrow> string" where
  \<comment> \<open>lines 239 to 248.\<close>
  "extract_body content =
     (case search_body content of
        Some g \<Rightarrow> g
      | None \<Rightarrow>
          (case re_search head_end_at content of
             Some rest \<Rightarrow> re_sub html_tag_at (\<lambda>_. []) rest
           | None \<Rightarrow> content))"

definition item_anchor_id :: "item \<Rightarrow> string" where
  \<comment> \<open>lines 251 and 252.\<close>
  "item_anchor_id it =
     (let filename = basename (href it) in
      py_replace ''.html'' [] (py_replace ''.xhtml'' [] filename))"

definition strip_namespaces :: "string \<Rightarrow> string" where
  \<comment> \<open>lines 262 and 263.\<close>
  "strip_namespaces body = re_sub epub_type_at (\<lambda>_. []) (re_sub xmlns_at (\<lambda>_. []) body)"

definition chapter_block :: "nat \<Rightarrow> item \<Rightarrow> string \<Rightarrow> block" where
  \<comment> \<open>lines 239 to 267: the block of the item at index \<open>i\<close> of the spine.\<close>
  "chapter_block i it content =
     \<lparr>anchor_id = item_anchor_id it,
      cls = (if i > 0 then ''epub-chapter-break'' else ''epub-chapter-first''),
      body_html = strip_namespaces (rewrite_links (extract_body content))\<rparr>"

definition chapter_css :: "(string \<Rightarrow> string) \<Rightarrow> fs \<Rightarrow> string \<Rightarrow> string \<Rightarrow> string list" where
  \<comment> \<open>lines 232 to 236: the resolved stylesheet paths of one chapter that exist;
      \<open>normpath\<close> stands for \<open>os.path.normpath\<close>.\<close>
  "chapter_css normpath disk html_path content =
     filter (path_exists disk)
       (map (\<lambda>css_href. normpath (path_join (dirname html_path) css_href)) (css_hrefs content))"

record flat_state =
  all_css :: "string set"
  all_bodies :: "block list"
  skipped_cover :: bool

fun flatten_loop ::
  "(string \<Rightarrow> string) \<Rightarrow> fs \<Rightarrow> bool \<Rightarrow> (nat \<times> item) list \<Rightarrow> flat_state \<Rightarrow> error + flat_state" where
  \<comment> \<open>the loop of lines 217 to 267 over \<open>enumerate(spine)\<close>.\<close>
  "flatten_loop normpath disk skip_cover [] st = Inr st"
| "flatten_loop normpath disk skip_cover ((i, it) # rest) st =
     (let html_path = full_path it in
      if \<not> path_exists disk html_path then flatten_loop normpath disk skip_cover rest st
      else if skip_cover \<and> \<not> skipped_cover st \<and> is_cover_page disk html_path it
      then flatten_loop normpath disk skip_cover rest (st\<lparr>skipped_cover := True\<rparr>)
      else (case read_text disk html_path of
              Inl e \<Rightarrow> Inl e
            | Inr content \<Rightarrow>
                flatten_loop normpath disk skip_cover rest
                  (st\<lparr>all_css := all_css st \<union> set (chapter_css normpath disk html_path content),
                      all_bodies := all_bodies st @ [chapter_block i it content]\<rparr>)))"

record flattened =
  stylesheets :: "string list"
  blocks :: "block list"

definition flatten :: "(string \<Rightarrow> string) \<Rightarrow> fs \<Rightarrow> item list \<Rightarrow> bool \<Rightarrow> error + flattened" where
  \<comment> \<open>the content of the combined document: \<open>sorted(all_css)\<close> and \<open>all_bodies\<close>.\<close>
  "flatten normpath disk spine skip_cover =
     (case flatten_loop normpath disk skip_cover (enumerate 0 spine)
             \<lparr>all_css = {}, all_bodies = [], skipped_cover = False\<rparr> of
        Inl e \<Rightarrow> Inl e
      | Inr st \<Rightarrow> Inr \<lparr>stylesheets = sorted_list_of_set (all_css st), blocks = all_bodies st\<rparr>)"

definition page_style :: string where
  \<comment> \<open>the fixed text of the f-string between the stylesheet links and the bodies.\<close>
  \<open>page_style =
     ''\<newline>    <style type="text/css">\<newline>''
     @ ''    /* Chapter page breaks */\<newline>''
     @ ''    .epub-chapter-break {\<newline>''
     @ ''        page-break-before: always !important;\<newline>''
     @ ''        break-before: page !important;\<newline>''
     @ ''    }\<newline>''
     @ ''    /* PDF print optimization */\<newline>''
     @ ''    @media print {\<newline>''
     @ ''        body {\<newline>''
     @ ''            orphans: 3;\<newline>''
     @ ''            widows: 3;\<newline>''
     @ ''        }\<newline>''
     @ ''        img {\<newline>''
     @ ''            max-width: 100% !important;\<newline>''
     @ ''            height: auto !important;\<newline>''
     @ ''            page-break-inside: avoid;\<newline>''
     @ ''        }\<newline>''
     @ ''        p {\<newline>''
     @ ''            page-break-inside: avoid;\<newline>''
     @ ''        }\<newline>''
     @ ''        h1, h2, h3, h4, h5, h6 {\<newline>''
     @ ''            page-break-after: avoid;\<newline>''
     @ ''        }\<newline>''
     @ ''    }\<newline>''
     @ ''    </style>\<newline>''
     @ ''</head>\<newline>''
     @ ''<body>\<newline>''\<close>

definition stylesheet_link :: "string \<Rightarrow> string" where
  \<open>stylesheet_link uri = ''<link rel="stylesheet" type="text/css" href="'' @ uri @ ''"/>''\<close>

fun as_uris :: "(string \<Rightarrow> error + string) \<Rightarrow> string list \<Rightarrow> error + string list" where
  \<comment> \<open>\<open>Path(css).as_uri()\<close> for each stylesheet, in order; it raises on a path that
      is not absolute.\<close>
  "as_uris as_uri [] = Inr []"
| "as_uris as_uri (css # rest) =
     (case as_uri css of
        Inl e \<Rightarrow> Inl e
      | Inr u \<Rightarrow> (case as_uris as_uri rest of Inl e \<Rightarrow> Inl e | Inr us \<Rightarrow> Inr (u # us)))"

definition combined_html :: "(string \<Rightarrow> error + string) \<Rightarrow> flattened \<Rightarrow> error + string" where
  \<comment> \<open>the f-string of lines 270 to 305.\<close>
  \<open>combined_html as_uri doc =
     (case as_uris as_uri (stylesheets doc) of
        Inl e \<Rightarrow> Inl e
      | Inr uris \<Rightarrow>
          Inr (''<!DOCTYPE html>\<newline><html lang="en">\<newline><head>\<newline>''
               @ ''    <meta charset="utf-8"/>\<newline>''
               @ ''    <title>Combined EPUB</title>\<newline>    ''
               @ concat (map stylesheet_link uris)
               @ page_style
               @ concat (map render_block (blocks doc))
               @ ''\<newline></body>\<newline></html>''))\<close>

definition write_text :: "fs \<Rightarrow> string \<Rightarrow> string \<Rightarrow> error + fs" where
  \<comment> \<open>\<open>open(p, 'w', encoding='utf-8')\<close> and \<open>f.write(s)\<close>.\<close>
  "write_text disk p s =
     (case disk p of
        Some Dir \<Rightarrow> Inl (IsADirectoryError p)
      | _ \<Rightarrow> Inr (disk(p \<mapsto> File s)))"

definition build_combined_html ::
  "(string \<Rightarrow> string) \<Rightarrow> (string \<Rightarrow> error + string) \<Rightarrow> fs \<Rightarrow> item list \<Rightarrow> string \<Rightarrow> bool
     \<Rightarrow> error + (string \<times> fs)" where
  "build_combined_html normpath as_uri disk spine opf_dir skip_cover =
     (case flatten normpath disk spine skip_cover of
        Inl e \<Rightarrow> Inl e
      | Inr doc \<Rightarrow>
          (case combined_html as_uri doc of
             Inl e \<Rightarrow> Inl e
           | Inr html \<Rightarrow>
               (let combined_path = path_join opf_dir ''_combined_epub.html'' in
                case write_text disk combined_path html of
                  Inl e \<Rightarrow> Inl e
                | Inr disk' \<Rightarrow> Inr (combined_path, disk'))))"


section \<open>Example inputs\<close>

definition block_bodies :: "error + flattened \<Rightarrow> error + (string \<times> string) list" where
  \<comment> \<open>the anchor id and the processed body of each block of a result.\<close>
  "block_bodies r = map_sum id (\<lambda>doc. map (\<lambda>b. (anchor_id b, body_html b)) (blocks doc)) r"

definition mk_item :: "string \<Rightarrow> string \<Rightarrow> item" where
  \<comment> \<open>a manifest entry of an XHTML content document, as \<open>parse_opf\<close> stores it.\<close>
  "mk_item h p = \<lparr>href = h, media_type = ''application/xhtml+xml'', properties = [], full_path = p\<rparr>"

definition cover_xhtml :: string where
  \<open>cover_xhtml =
     ''<html><head><title>Cover</title></head><body><div><img src="cover.jpg" alt="Cover"/></div></body></html>''\<close>

definition ch1_xhtml :: string where
  \<open>ch1_xhtml =
     ''<html><head><link rel="stylesheet" type="text/css" href="css/style.css"/></head>''
     @ ''<body><p>One <a href="ch2.xhtml#s">two</a></p></body></html>''\<close>

definition ch2_xhtml :: string where
  \<open>ch2_xhtml =
     ''<html><head><link rel="stylesheet" href="css/style.css"/><link rel="stylesheet" href='css/base.css'/></head>''
     @ ''<body><p>Two</p></body></html>''\<close>

definition ch3_xhtml :: string where
  \<open>ch3_xhtml =
     ''<html><head><link rel="stylesheet" href="css/style.css"/><link rel="stylesheet" href="css/gone.css"/></head>''
     @ ''<body><p>Three</p></body></html>''\<close>

definition book_disk :: fs where
  "book_disk = map_of
     [(''/b/cover.xhtml'', File cover_xhtml),
      (''/b/cover2.xhtml'', File cover_xhtml),
      (''/b/ch1.xhtml'', File ch1_xhtml),
      (''/b/ch2.xhtml'', File ch2_xhtml),
      (''/b/ch3.xhtml'', File ch3_xhtml),
      (''/b/css/style.css'', File ''p { margin: 0 }''),
      (''/b/css/base.css'', File ''body { color: black }'')]"

definition book_spine :: "item list" where
  \<comment> \<open>two cover wrappers, an entry whose file is missing, and three chapters.\<close>
  "book_spine =
     [mk_item ''cover.xhtml'' ''/b/cover.xhtml'',
      mk_item ''ghost.xhtml'' ''/b/ghost.xhtml'',
      mk_item ''cover2.xhtml'' ''/b/cover2.xhtml'',
      mk_item ''ch1.xhtml'' ''/b/ch1.xhtml'',
      mk_item ''ch2.xhtml'' ''/b/ch2.xhtml'',
      mk_item ''ch3.xhtml'' ''/b/ch3.xhtml'']"

definition short_spine :: "item list" where
  \<comment> \<open>a cover wrapper followed by two chapters.\<close>
  "short_spine =
     [mk_item ''cover.xhtml'' ''/b/cover.xhtml'',
      mk_item ''ch1.xhtml'' ''/b/ch1.xhtml'',
      mk_item ''ch2.xhtml'' ''/b/ch2.xhtml'']"

definition ghost_spine :: "item list" where
  \<comment> \<open>an entry whose file is missing, followed by a chapter.\<close>
  "ghost_spine =
     [mk_item ''ghost.xhtml'' ''/b/ghost.xhtml'',
      mk_item ''ch1.xhtml'' ''/b/ch1.xhtml'']"

definition block_classes :: "error + flattened \<Rightarrow> error + (string \<times> string) list" where
  \<comment> \<open>the anchor id and the page-break class of each block of a result.\<close>
  "block_classes r = map_sum id (\<lambda>doc. map (\<lambda>b. (anchor_id b, cls b)) (blocks doc)) r"

definition dir_disk :: fs where
  \<comment> \<open>a content directory in which \<open>cover.xhtml\<close> is a directory.\<close>
  "dir_disk = map_of [(''/b/cover.xhtml'', Dir)]"

definition twin_disk :: fs where
  \<comment> \<open>two chapters with the same file name in two directories; the second links to
      the first by its path.\<close>
  \<open>twin_disk = map_of
     [(''/b/a/ch1.xhtml'', File ''<body><p>A</p></body>''),
      (''/b/b/ch1.xhtml'', File ''<body><a href="a/ch1.xhtml">to A</a></body>'')]\<close>

definition twin_spine :: "item list" where
  "twin_spine =
     [mk_item ''a/ch1.xhtml'' ''/b/a/ch1.xhtml'',
      mk_item ''b/ch1.xhtml'' ''/b/b/ch1.xhtml'']"

definition twin_blocks :: "block list" where
  \<open>twin_blocks =
     [\<lparr>anchor_id = ''ch1'', cls = ''epub-chapter-first'', body_html = ''<p>A</p>''\<rparr>,
      \<lparr>anchor_id = ''ch1'', cls = ''epub-chapter-break'',
       body_html = ''<a href="#a/ch1">to A</a>''\<rparr>]\<close>

definition links_xhtml :: string where
  \<comment> \<open>a chapter with a link to the next chapter, a link to a web page and a mail
      address whose ends are \<open>.xhtml\<close>, and a link to a web page ending in \<open>.html\<close>.\<close>
  \<open>links_xhtml =
     ''<html><body><p><a href="ch2.xhtml#s">next</a> ''
     @ ''<a href="http://example.com/page.xhtml">site</a> ''
     @ ''<a href="mailto:x@y.xhtml">mail</a> ''
     @ ''<a href="http://example.com/page.html">other</a></p></body></html>''\<close>

definition links_disk :: fs where
  "links_disk = map_of
     [(''/b/ch1.xhtml'', File links_xhtml),
      (''/b/ch2.xhtml'', File ch2_xhtml)]"

definition links_spine :: "item list" where
  "links_spine =
     [mk_item ''ch1.xhtml'' ''/b/ch1.xhtml'',
      mk_item ''ch2.xhtml'' ''/b/ch2.xhtml'']"

definition links_bodies :: "(string \<times> string) list" where
  \<open>links_bodies =
     [(''ch1'',
       ''<p><a href="#ch2">next</a> ''
       @ ''<a href="#http://example.com/page">site</a> ''
       @ ''<a href="#mailto:x@y">mail</a> ''
       @ ''<a href="http://example.com/page.html">other</a></p>''),
      (''ch2'', ''<p>Two</p>'')]\<close>

definition one_page :: "string \<Rightarrow> fs" where
  \<comment> \<open>a content directory whose only file is \<open>cover.xhtml\<close>, with the given text.\<close>
  "one_page content = map_of [(''/b/cover.xhtml'', File content)]"

definition bare_image_page :: string where
  \<comment> \<open>a body that is one image tag, written without a space.\<close>
  \<open>bare_image_page = ''<html><body><img/></body></html>''\<close>

definition single_quoted_class_page :: string where
  \<comment> \<open>a body tag whose class attribute is written with single quotes.\<close>
  \<open>single_quoted_class_page = ''<html><body class='cover'><p>Title</p></body></html>''\<close>

definition data_class_page :: string where
  \<comment> \<open>a body tag with no class attribute and no image.\<close>
  \<open>data_class_page = ''<html><body data-class="recover"><p>Chapter one</p></body></html>''\<close>

definition capitals_page :: string where
  \<comment> \<open>a cover wrapper written in capitals, with line breaks around the image tag and
      inside it.\<close>
  \<open>capitals_page = ''<HTML><BODY>\<newline> <IMG\<newline>SRC="c.jpg"/>\<newline></BODY></HTML>''\<close>

section \<open>The spine items that reach the combined document\<close>

text \<open>
  The loop of \<open>build_combined_html\<close> leaves out an entry whose file is missing, and,
  when cover skipping is on, the first existing entry that the detector flags. The
  entries it keeps, each with its index in the spine, are given here as a list of
  their own, to state what the loop computes.
\<close>

fun surviving :: "fs \<Rightarrow> bool \<Rightarrow> (nat \<times> item) list \<Rightarrow> (nat \<times> item) list" where
  "surviving disk skip [] = []"
| "surviving disk skip ((i, it) # rest) =
     (if \<not> path_exists disk (full_path it) then surviving disk skip rest
      else if skip \<and> is_cover_page disk (full_path it) it then surviving disk False rest
      else (i, it) # surviving disk skip rest)"

definition file_text :: "fs \<Rightarrow> string \<Rightarrow> string" where
  \<comment> \<open>the text of a regular file.\<close>
  "file_text disk p = (case disk p of Some (File content) \<Rightarrow> content | _ \<Rightarrow> [])"

definition survivor_block :: "fs \<Rightarrow> nat \<times> item \<Rightarrow> block" where
  "survivor_block disk e = chapter_block (fst e) (snd e) (file_text disk (full_path (snd e)))"

definition survivor_css :: "(string \<Rightarrow> string) \<Rightarrow> fs \<Rightarrow> nat \<times> item \<Rightarrow> string set" where
  "survivor_css normpath disk e =
     set (chapter_css normpath disk (full_path (snd e)) (file_text disk (full_path (snd e))))"


section \<open>The rule of the Cover-Page Detector, in words\<close>

text \<open>
  The detector works on the text of the page, not on a parsed document. Its rule is
  stated here over the text, without the matchers of the previous sections, to be
  compared with them.
\<close>

definition spelt :: "string \<Rightarrow> string \<Rightarrow> bool" where
  \<comment> \<open>\<open>w\<close> is the word \<open>p\<close> in any mix of upper and lower case.\<close>
  "spelt p w = (py_lower w = py_lower p)"

definition named_cover :: "item \<Rightarrow> bool" where
  \<comment> \<open>the file name of the \<open>href\<close> (what follows its last slash) contains \<open>cover\<close>,
      in any case.\<close>
  "named_cover it =
     (\<exists>d a w b. href it = d @ a @ w @ b \<and> (d = [] \<or> last d = CHR ''/'')
        \<and> CHR ''/'' \<notin> set (a @ w @ b) \<and> spelt ''cover'' w)"

definition body_element_at :: "string \<Rightarrow> nat \<Rightarrow> string \<Rightarrow> bool" where
  \<comment> \<open>at offset \<open>n\<close> of the text: \<open><body\<close> in any case, characters other than \<open>>\<close>, a
      \<open>>\<close>, the text \<open>g\<close>, and \<open></body>\<close> in any case, with \<open>g\<close> as short as can be.\<close>
  "body_element_at content n g =
     (\<exists>pre w a k post. content = pre @ w @ a @ CHR ''>'' # g @ k @ post \<and> length pre = n
        \<and> spelt ''<body'' w \<and> CHR ''>'' \<notin> set a \<and> spelt ''</body>'' k
        \<and> (\<forall>g' k' post'. g @ k @ post = g' @ k' @ post' \<and> spelt ''</body>'' k'
              \<longrightarrow> length g \<le> length g'))"

definition first_body :: "string \<Rightarrow> string \<Rightarrow> bool" where
  \<comment> \<open>\<open>g\<close> is the content of the first body element of the text.\<close>
  "first_body content g =
     (\<exists>n. body_element_at content n g \<and> (\<forall>m g'. body_element_at content m g' \<longrightarrow> n \<le> m))"

definition trimmed :: "string \<Rightarrow> string \<Rightarrow> bool" where
  \<comment> \<open>\<open>t\<close> is \<open>s\<close> without its leading and trailing whitespace.\<close>
  "trimmed s t =
     (\<exists>a b. s = a @ t @ b \<and> (\<forall>c \<in> set a \<union> set b. py_isspace c)
        \<and> (t \<noteq> [] \<longrightarrow> \<not> py_isspace (hd t) \<and> \<not> py_isspace (last t)))"

definition has_image_tag :: "string \<Rightarrow> bool" where
  \<comment> \<open>the text contains \<open><img\<close>, in any case, followed by a whitespace character.\<close>
  "has_image_tag b = (\<exists>pre w c post. b = pre @ w @ c # post \<and> spelt ''<img'' w \<and> py_isspace c)"

definition is_tag :: "string \<Rightarrow> bool" where
  \<comment> \<open>a \<open><\<close>, one or more characters other than \<open>>\<close>, and a \<open>>\<close>.\<close>
  "is_tag t = (\<exists>a. t = CHR ''<'' # a @ ''>'' \<and> a \<noteq> [] \<and> CHR ''>'' \<notin> set a)"

inductive without_tags :: "string \<Rightarrow> string \<Rightarrow> bool" where
  \<comment> \<open>the text read from the left, every tag left out.\<close>
  finished: "without_tags [] []"
| tag: "is_tag t \<Longrightarrow> without_tags s r \<Longrightarrow> without_tags (t @ s) r"
| keep: "(\<forall>t u. is_tag t \<longrightarrow> c # s \<noteq> t @ u) \<Longrightarrow> without_tags s r
           \<Longrightarrow> without_tags (c # s) (c # r)"

definition image_wrapper :: "string \<Rightarrow> bool" where
  \<comment> \<open>the first body element, trimmed, has an image tag, and fewer than 100
      characters are left of it once its tags are left out and the rest is trimmed.\<close>
  "image_wrapper content =
     (\<exists>g body bare t. first_body content g \<and> trimmed g body \<and> has_image_tag body
        \<and> without_tags body bare \<and> trimmed bare t \<and> length t < 100)"

definition body_class_cover :: "string \<Rightarrow> bool" where
  \<comment> \<open>the text contains \<open><body\<close>, then, with no \<open>>\<close> in between, \<open>class=\<close> and a value
      in double quotes that contains \<open>cover\<close>; all in any case.\<close>
  "body_class_cover content =
     (\<exists>pre w a k v u v' post.
        content = pre @ w @ a @ k @ v @ u @ v' @ dquote # post
        \<and> spelt ''<body'' w \<and> CHR ''>'' \<notin> set a \<and> spelt (''class='' @ [dquote]) k
        \<and> dquote \<notin> set v \<and> spelt ''cover'' u \<and> dquote \<notin> set v')"

section \<open>The Manifest Parser\<close>

text \<open>
  \<open>ET.parse\<close> is a library function: its parsing of a file's text is a parameter
  \<open>xml_parse\<close>, with \<open>None\<close> for text that is not well-formed. So is
  \<open>os.path.normpath\<close>.
\<close>

definition et_parse :: "(string \<Rightarrow> xml option) \<Rightarrow> fs \<Rightarrow> string \<Rightarrow> error + xml" where
  \<comment> \<open>\<open>ET.parse(path).getroot()\<close>.\<close>
  "et_parse xml_parse disk p =
     (case disk p of
        None \<Rightarrow> Inl (FileNotFoundError p)
      | Some Dir \<Rightarrow> Inl (IsADirectoryError p)
      | Some (File content) \<Rightarrow>
          (case xml_parse content of None \<Rightarrow> Inl (ParseError p) | Some t \<Rightarrow> Inr t))"

definition find_descendant :: "string \<Rightarrow> xml \<Rightarrow> xml option" where
  \<comment> \<open>\<open>root.find('.//tag')\<close>: the first descendant with the tag, in document order.\<close>
  "find_descendant t e =
     (case filter (\<lambda>d. tag d = t) (concat (map iter_all (children e))) of
        [] \<Rightarrow> None
      | d # _ \<Rightarrow> Some d)"

definition rootfile_tag :: string where
  "rootfile_tag = ''{urn:oasis:names:tc:opendocument:xmlns:container}rootfile''"

fun brace_run :: "string \<Rightarrow> string option" where
  \<comment> \<open>\<open>.*\}\<close>, greedy, the dot not matching a newline: the text matched.\<close>
  "brace_run [] = None"
| "brace_run (c # cs) =
     (case (if c = CHR ''\<newline>'' then None else brace_run cs) of
        Some m \<Rightarrow> Some (c # m)
      | None \<Rightarrow> if c = CHR ''}'' then Some [c] else None)"

definition ns_prefix_of :: "string \<Rightarrow> string" where
  \<comment> \<open>\<open>re.match(r'\{.*\}', root.tag)\<close>: \<open>group(0)\<close> on a match, else the empty string.\<close>
  "ns_prefix_of t =
     (case t of
        [] \<Rightarrow> []
      | c # cs \<Rightarrow>
          if c = CHR ''{'' then (case brace_run cs of Some m \<Rightarrow> c # m | None \<Rightarrow> []) else [])"

type_synonym manifest = "(string option \<times> item) list"

fun dict_set :: "'k \<Rightarrow> 'v \<Rightarrow> ('k \<times> 'v) list \<Rightarrow> ('k \<times> 'v) list" where
  \<comment> \<open>\<open>d[k] = v\<close> on a dict, which keeps insertion order: a key already present keeps
      its place.\<close>
  "dict_set k v [] = [(k, v)]"
| "dict_set k v ((k', v') # rest) =
     (if k = k' then (k, v) # rest else (k', v') # dict_set k v rest)"

definition attr_or_empty :: "xml \<Rightarrow> string \<Rightarrow> string" where
  \<comment> \<open>\<open>elem.get(key, '')\<close>.\<close>
  "attr_or_empty e k = (case get_attr e k of None \<Rightarrow> [] | Some v \<Rightarrow> v)"

fun build_manifest ::
  "(string \<Rightarrow> string) \<Rightarrow> string \<Rightarrow> xml list \<Rightarrow> manifest \<Rightarrow> error + manifest" where
  \<comment> \<open>lines 59 to 70; \<open>os.path.join\<close> raises \<open>TypeError\<close> on an item without \<open>href\<close>.\<close>
  "build_manifest normpath opf_dir [] m = Inr m"
| "build_manifest normpath opf_dir (e # es) m =
     (case get_attr e ''href'' of
        None \<Rightarrow> Inl (TypeError ''expected str, bytes or os.PathLike object, not NoneType'')
      | Some h \<Rightarrow>
          build_manifest normpath opf_dir es
            (dict_set (get_attr e ''id'')
               \<lparr>href = h, media_type = attr_or_empty e ''media-type'',
                properties = attr_or_empty e ''properties'',
                full_path = normpath (path_join opf_dir h)\<rparr> m))"

fun build_spine :: "manifest \<Rightarrow> xml list \<Rightarrow> item list" where
  \<comment> \<open>lines 73 to 77.\<close>
  "build_spine m [] = []"
| "build_spine m (r # rs) =
     (case map_of m (get_attr r ''idref'') of
        Some it \<Rightarrow> it # build_spine m rs
      | None \<Rightarrow> build_spine m rs)"

definition cover_by_property :: "manifest \<Rightarrow> string option" where
  \<comment> \<open>lines 88 to 92.\<close>
  "cover_by_property m =
     (case filter (\<lambda>(k, it). occurs ''cover-image'' (properties it)) m of
        [] \<Rightarrow> None
      | (k, it) # _ \<Rightarrow> Some (full_path it))"

fun cover_by_meta :: "manifest \<Rightarrow> xml list \<Rightarrow> string option" where
  \<comment> \<open>lines 95 to 100.\<close>
  "cover_by_meta m [] = None"
| "cover_by_meta m (e # es) =
     (if get_attr e ''name'' = Some ''cover'' then
        (case map_of m (get_attr e ''content'') of
           Some it \<Rightarrow> Some (full_path it)
         | None \<Rightarrow> cover_by_meta m es)
      else cover_by_meta m es)"

definition truthy :: "string option \<Rightarrow> bool" where
  \<comment> \<open>the truth value of a value that is \<open>None\<close> or a \<open>str\<close>.\<close>
  "truthy v = (v \<noteq> None \<and> v \<noteq> Some [])"

record opf =
  opf_spine :: "item list"
  manifest_of :: manifest
  metadata_of :: metadata
  opf_dir_of :: string
  cover_image_path :: "string option"

definition parse_package ::
  "(string \<Rightarrow> string) \<Rightarrow> string \<Rightarrow> xml \<Rightarrow> error + opf" where
  \<comment> \<open>lines 54 to 102, on the parsed package document.\<close>
  "parse_package normpath opf_dir opf_root =
     (let ns_prefix = ns_prefix_of (tag opf_root) in
      case build_manifest normpath opf_dir (iter (ns_prefix @ ''item'') opf_root) [] of
        Inl e \<Rightarrow> Inl e
      | Inr m \<Rightarrow>
          (let first = cover_by_property m;
               cover = (if \<not> truthy first then
                          (case cover_by_meta m (iter (ns_prefix @ ''meta'') opf_root) of
                             Some p \<Rightarrow> Some p
                           | None \<Rightarrow> first)
                        else first)
           in Inr \<lparr>opf_spine = build_spine m (iter (ns_prefix @ ''itemref'') opf_root),
                   manifest_of = m, metadata_of = parse_metadata opf_root,
                   opf_dir_of = opf_dir, cover_image_path = cover\<rparr>))"

definition parse_opf ::
  "(string \<Rightarrow> xml option) \<Rightarrow> (string \<Rightarrow> string) \<Rightarrow> fs \<Rightarrow> string \<Rightarrow> error + opf" where
  "parse_opf xml_parse normpath disk extract_dir =
     (let container_path = path_join (path_join extract_dir ''META-INF'') ''container.xml'' in
      if \<not> path_exists disk container_path
      then Inl (FileNotFoundError ''No META-INF/container.xml found - not a valid EPUB'')
      else
        (case et_parse xml_parse disk container_path of
           Inl e \<Rightarrow> Inl e
         | Inr container \<Rightarrow>
             (case find_descendant rootfile_tag container of
                None \<Rightarrow> Inl (ValueError ''No rootfile found in container.xml'')
              | Some rootfile_elem \<Rightarrow>
                  (case get_attr rootfile_elem ''full-path'' of
                     None \<Rightarrow>
                       Inl (TypeError ''expected str, bytes or os.PathLike object, not NoneType'')
                   | Some opf_relative \<Rightarrow>
                       (let opf_path = path_join extract_dir opf_relative;
                            opf_dir = dirname opf_path
                        in case et_parse xml_parse disk opf_path of
                             Inl e \<Rightarrow> Inl e
                           | Inr opf_root \<Rightarrow> parse_package normpath opf_dir opf_root)))))"


section \<open>The conversion run\<close>

text \<open>
  The collaborators of the run are parameters: the ZIP extraction, the image library
  behind \<open>create_cover_pdf\<close>, the browser behind \<open>render_to_pdf\<close>, and the PDF writer,
  each taking the file system and returning it, changed as it pleases, with its result
  or the exception it raised. \<open>tempfile.mkdtemp\<close> gives the path of the directory it
  creates.
\<close>

record collaborators =
  et_parse_text :: "string \<Rightarrow> xml option"
  os_normpath :: "string \<Rightarrow> string"
  path_as_uri :: "string \<Rightarrow> error + string"
  with_suffix_pdf :: "string \<Rightarrow> string"
  tempfile_mkdtemp :: "fs \<Rightarrow> string"
  extract_epub :: "fs \<Rightarrow> string \<Rightarrow> string \<Rightarrow> (error + unit) \<times> fs"
  create_cover_pdf :: "fs \<Rightarrow> string \<Rightarrow> string \<Rightarrow> (error + unit) \<times> fs"
  render_to_pdf :: "fs \<Rightarrow> string \<Rightarrow> string \<Rightarrow> (error + unit) \<times> fs"
  pdf_merge :: "fs \<Rightarrow> string option \<Rightarrow> string \<Rightarrow> metadata \<Rightarrow> string \<Rightarrow> (error + unit) \<times> fs"

definition under :: "string \<Rightarrow> string \<Rightarrow> bool" where
  \<comment> \<open>the directory itself, or a path inside it.\<close>
  "under d p = (p = d \<or> prefix (path_join d []) p)"

definition rmtree :: "fs \<Rightarrow> string \<Rightarrow> fs" where
  \<comment> \<open>\<open>shutil.rmtree(d, ignore_errors=True)\<close>, taken to remove the whole tree.\<close>
  "rmtree disk d = (\<lambda>p. if under d p then None else disk p)"

definition cover_step ::
  "collaborators \<Rightarrow> fs \<Rightarrow> string \<Rightarrow> string option \<Rightarrow> (error + string option) \<times> fs" where
  \<comment> \<open>step 3, lines 398 to 405: the path of the cover PDF, or \<open>None\<close>.\<close>
  "cover_step env disk extract_dir cover =
     (case cover of
        None \<Rightarrow> (Inr None, disk)
      | Some image_path \<Rightarrow>
          if image_path \<noteq> [] \<and> path_exists disk image_path then
            (let cover_pdf_path = path_join extract_dir ''_cover.pdf'' in
             case create_cover_pdf env disk image_path cover_pdf_path of
               (Inl e, disk') \<Rightarrow> (Inl e, disk')
             | (Inr u, disk') \<Rightarrow> (Inr (Some cover_pdf_path), disk'))
          else (Inr None, disk))"

definition merge_step ::
  "collaborators \<Rightarrow> fs \<Rightarrow> string option \<Rightarrow> string \<Rightarrow> metadata \<Rightarrow> string
     \<Rightarrow> (error + string) \<times> fs" where
  \<comment> \<open>step 6 and the report, lines 423 to 455; \<open>pdf_path.stat()\<close> raises when the
      writer left no file.\<close>
  "merge_step env disk cover_pdf_path content_pdf_path md pdf_path =
     (let cover_arg = (case cover_pdf_path of
                         None \<Rightarrow> None
                       | Some c \<Rightarrow> if path_exists disk c then Some c else None)
      in case pdf_merge env disk cover_arg content_pdf_path md pdf_path of
           (Inl e, disk') \<Rightarrow> (Inl e, disk')
         | (Inr u, disk') \<Rightarrow>
             if path_exists disk' pdf_path then (Inr pdf_path, disk')
             else (Inl (FileNotFoundError pdf_path), disk'))"

definition convert_steps ::
  "collaborators \<Rightarrow> fs \<Rightarrow> string \<Rightarrow> string \<Rightarrow> string \<Rightarrow> (error + string) \<times> fs" where
  \<comment> \<open>the body of the \<open>try\<close> block, lines 383 to 455: an exception ends it at once,
      with the file system as it then is.\<close>
  "convert_steps env disk epub_path pdf_path extract_dir =
     (case extract_epub env disk epub_path extract_dir of
        (Inl e, d1) \<Rightarrow> (Inl e, d1)
      | (Inr u, d1) \<Rightarrow>
          (case parse_opf (et_parse_text env) (os_normpath env) d1 extract_dir of
             Inl e \<Rightarrow> (Inl e, d1)
           | Inr pkg \<Rightarrow>
               (case cover_step env d1 extract_dir (cover_image_path pkg) of
                  (Inl e, d2) \<Rightarrow> (Inl e, d2)
                | (Inr cover_pdf_path, d2) \<Rightarrow>
                    (case build_combined_html (os_normpath env) (path_as_uri env) d2
                            (opf_spine pkg) (opf_dir_of pkg) (cover_pdf_path \<noteq> None) of
                       Inl e \<Rightarrow> (Inl e, d2)
                     | Inr (combined_html_path, d3) \<Rightarrow>
                         (let content_pdf_path = path_join extract_dir ''_content.pdf'' in
                          case render_to_pdf env d3 combined_html_path content_pdf_path of
                            (Inl e, d4) \<Rightarrow> (Inl e, d4)
                          | (Inr u', d4) \<Rightarrow>
                              merge_step env d4 cover_pdf_path content_pdf_path
                                (metadata_of pkg) pdf_path)))))"

definition epub_to_pdf ::
  "collaborators \<Rightarrow> fs \<Rightarrow> string \<Rightarrow> string option \<Rightarrow> (error + string) \<times> fs" where
  \<comment> \<open>lines 369 to 460, on resolved paths: the temporary directory is made, the steps
      run, and the \<open>finally\<close> clause removes the directory whether they returned or
      raised.\<close>
  "epub_to_pdf env disk epub_path pdf_path_arg =
     (let pdf_path = (case pdf_path_arg of None \<Rightarrow> with_suffix_pdf env epub_path | Some p \<Rightarrow> p);
          extract_dir = tempfile_mkdtemp env disk;
          r = convert_steps env (disk(extract_dir \<mapsto> Dir)) epub_path pdf_path extract_dir
      in (fst r, rmtree (snd r) extract_dir))"


section \<open>Example runs\<close>

definition container_root :: xml where
  \<comment> \<open>a container descriptor with no \<open>rootfile\<close> entry.\<close>
  "container_root =
     Element ''{urn:oasis:names:tc:opendocument:xmlns:container}container'' [] None []"

definition stub_env ::
  "(fs \<Rightarrow> string \<Rightarrow> string \<Rightarrow> (error + unit) \<times> fs) \<Rightarrow> collaborators" where
  \<comment> \<open>collaborators that do the least: only the extraction varies.\<close>
  "stub_env extraction =
     \<lparr>et_parse_text = (\<lambda>s. if s = ''<container/>'' then Some container_root else None),
      os_normpath = (\<lambda>p. p),
      path_as_uri = (\<lambda>p. Inr (''file://'' @ p)),
      with_suffix_pdf = (\<lambda>p. p @ ''.pdf''),
      tempfile_mkdtemp = (\<lambda>d. ''/tmp/epub2pdf_extract_x''),
      extract_epub = extraction,
      create_cover_pdf = (\<lambda>d src dst. (Inr (), d(dst \<mapsto> File ''%PDF''))),
      render_to_pdf = (\<lambda>d src dst. (Inr (), d(dst \<mapsto> File ''%PDF''))),
      pdf_merge = (\<lambda>d c content md out. (Inr (), d(out \<mapsto> File ''%PDF'')))\<rparr>"

definition extract_no_container :: "fs \<Rightarrow> string \<Rightarrow> string \<Rightarrow> (error + unit) \<times> fs" where
  \<comment> \<open>an archive that holds a \<open>mimetype\<close> entry only.\<close>
  "extract_no_container d src dst =
     (Inr (), d(dst @ ''/mimetype'' \<mapsto> File ''application/epub+zip''))"

definition extract_bare_container :: "fs \<Rightarrow> string \<Rightarrow> string \<Rightarrow> (error + unit) \<times> fs" where
  \<comment> \<open>an archive whose container descriptor names no package document.\<close>
  "extract_bare_container d src dst =
     (Inr (), d(dst @ ''/META-INF'' \<mapsto> Dir, dst @ ''/META-INF/container.xml'' \<mapsto> File ''<container/>''))"


section \<open>Substitution and the link pattern\<close>

lemma sub_from_skip:
  "sub_from m r (length xs) (xs @ ys) = sub_from m r 0 ys"
  by (induction xs) simp_all

lemma re_sub_match:
  assumes "m (a @ rest) = Some (g, rest)" and "a \<noteq> []"
  shows "re_sub m r (a @ rest) = r g @ re_sub m r rest"
proof -
  obtain c as where a: "a = c # as"
    using assms(2) by (cases a) auto
  have "sub_from m r 0 (c # as @ rest) = r g @ sub_from m r (length as) (as @ rest)"
    using assms(1) by (simp add: a)
  then show ?thesis
    by (simp add: re_sub_def a sub_from_skip)
qed

lemma re_sub_Nil: "re_sub m r [] = []"
  by (simp add: re_sub_def)

lemma re_sub_no_match:
  "m (c # cs) = None \<Longrightarrow> re_sub m r (c # cs) = c # re_sub m r cs"
  by (simp add: re_sub_def)

lemma re_sub_skip_prefix:
  "(\<And>k. k < length p \<Longrightarrow> m (drop k p @ s) = None) \<Longrightarrow> re_sub m r (p @ s) = p @ re_sub m r s"
proof (induction p)
  case Nil
  show ?case by simp
next
  case (Cons c p)
  have "m (c # p @ s) = None"
    using Cons.prems [of 0] by simp
  moreover have "re_sub m r (p @ s) = p @ re_sub m r s"
  proof (rule Cons.IH)
    fix k assume "k < length p"
    then show "m (drop k p @ s) = None"
      using Cons.prems [of "Suc k"] by simp
  qed
  ultimately show ?case
    by (simp add: re_sub_no_match)
qed


lemma occurs_iff: "occurs sub s \<longleftrightarrow> (\<exists>k \<le> length s. prefix sub (drop k s))"
proof (induction s)
  case Nil
  show ?case by auto
next
  case (Cons c cs)
  show ?case
  proof
    assume "occurs sub (c # cs)"
    then consider "prefix sub (c # cs)" | "occurs sub cs" by auto
    then show "\<exists>k \<le> length (c # cs). prefix sub (drop k (c # cs))"
    proof cases
      case 1
      then show ?thesis by (intro exI [of _ 0]) simp
    next
      case 2
      then obtain k where "k \<le> length cs" "prefix sub (drop k cs)"
        using Cons.IH by auto
      then show ?thesis by (intro exI [of _ "Suc k"]) simp
    qed
  next
    assume "\<exists>k \<le> length (c # cs). prefix sub (drop k (c # cs))"
    then obtain k where k: "k \<le> length (c # cs)" "prefix sub (drop k (c # cs))" by auto
    show "occurs sub (c # cs)"
    proof (cases k)
      case 0
      then show ?thesis using k by simp
    next
      case (Suc j)
      then have "j \<le> length cs" "prefix sub (drop j cs)" using k by auto
      then show ?thesis using Cons.IH by auto
    qed
  qed
qed

lemma href_at_prefix:
  "href_at s = Some x \<Longrightarrow> prefix (''href='' @ [dquote]) s"
  by (auto simp: href_at_def split: if_splits)


lemma after_first_append:
  "x \<notin> set u \<Longrightarrow> after_first x (u @ x # rest) = Some rest"
  by (induction u) auto

lemma after_first_split:
  "after_first x s = Some rest \<Longrightarrow> \<exists>u. x \<notin> set u \<and> s = u @ x # rest"
proof (induction s)
  case Nil
  then show ?case by simp
next
  case (Cons c cs)
  show ?case
  proof (cases "c = x")
    case True
    then show ?thesis using Cons.prems by (intro exI [of _ "[]"]) simp
  next
    case False
    then obtain u where "x \<notin> set u" "cs = u @ x # rest"
      using Cons by auto
    then show ?thesis using False by (intro exI [of _ "c # u"]) simp
  qed
qed

lemma link_tail_quote: "link_tail (dquote # rest) = Some rest"
  by (simp add: link_tail_def)

lemma link_tail_fragment:
  "dquote \<notin> set frag \<Longrightarrow> link_tail (CHR ''#'' # frag @ dquote # rest) = Some rest"
  by (simp add: link_tail_def after_first_append)

lemma link_tail_other:
  "c \<noteq> dquote \<Longrightarrow> c \<noteq> CHR ''#'' \<Longrightarrow> link_tail (c # cs) = None"
  by (simp add: link_tail_def)

lemma link_tail_cases:
  "link_tail s = Some r \<Longrightarrow>
     s = dquote # r \<or> (\<exists>frag. dquote \<notin> set frag \<and> s = CHR ''#'' # frag @ dquote # r)"
  by (cases s) (auto simp: link_tail_def split: if_splits option.splits dest: after_first_split)

lemma link_tail_inside:
  assumes "6 < length w" "dquote \<notin> set w" "CHR ''#'' \<notin> set w"
  shows "link_tail (drop 6 (w @ t)) = None"
proof -
  have "drop 6 (w @ t) = drop 6 w @ t"
    using assms(1) by simp
  moreover obtain x xs where d: "drop 6 w = x # xs"
    using assms(1) by (cases "drop 6 w") auto
  moreover have "x \<in> set w"
    using d set_drop_subset [of 6 w] by (metis list.set_intros(1) subsetD)
  ultimately show ?thesis
    using assms(2,3) by (auto intro: link_tail_other)
qed

lemma xhtml_lazy_complete:
  assumes "dquote \<notin> set u" "CHR ''#'' \<notin> set u" "link_tail tail = Some rest"
  shows "xhtml_lazy (u @ ''.xhtml'' @ tail) = Some (u @ ''.xhtml'', rest)"
  using assms(1,2)
proof (induction u)
  case Nil
  show ?case using assms(3) by simp
next
  case (Cons c u)
  have "link_tail (drop 6 ((c # u @ ''.xhtml'') @ tail)) = None"
    using Cons.prems by (intro link_tail_inside) auto
  then have "link_tail (drop 6 (c # u @ ''.xhtml'' @ tail)) = None"
    by simp
  moreover have "xhtml_lazy (u @ ''.xhtml'' @ tail) = Some (u @ ''.xhtml'', rest)"
    using Cons by simp
  ultimately show ?case
    using Cons.prems by auto
qed

lemma href_at_complete:
  assumes "t \<noteq> []" "dquote \<notin> set t" "CHR ''#'' \<notin> set t" "link_tail tail = Some rest"
  shows "href_at (''href='' @ [dquote] @ t @ ''.xhtml'' @ tail) = Some (t @ ''.xhtml'', rest)"
proof -
  obtain c u where t: "t = c # u"
    using assms(1) by (cases t) auto
  have "xhtml_lazy (u @ ''.xhtml'' @ tail) = Some (u @ ''.xhtml'', rest)"
    using assms t by (intro xhtml_lazy_complete) auto
  then show ?thesis
    using assms t by (auto simp: href_at_def)
qed

lemma xhtml_lazy_sound:
  "xhtml_lazy s = Some (g, r) \<Longrightarrow>
     \<exists>u tail. g = u @ ''.xhtml'' \<and> dquote \<notin> set u \<and> CHR ''#'' \<notin> set u \<and> s = g @ tail
            \<and> link_tail tail = Some r"
proof (induction s arbitrary: g)
  case Nil
  then show ?case by simp
next
  case (Cons c cs)
  show ?case
  proof (cases "prefix ''.xhtml'' (c # cs) \<and> link_tail (drop 6 (c # cs)) \<noteq> None")
    case True
    then have g: "g = ''.xhtml''" and lt: "link_tail (drop 6 (c # cs)) = Some r"
      using Cons.prems by (auto split: option.splits)
    from True obtain z where "c # cs = ''.xhtml'' @ z"
      by (auto simp: prefix_def)
    then show ?thesis
      using g lt by (intro exI [of _ "[]"] exI [of _ z]) auto
  next
    case False
    then have nq: "c \<noteq> dquote" "c \<noteq> CHR ''#''"
      and "map_option (\<lambda>(g, r). (c # g, r)) (xhtml_lazy cs) = Some (g, r)"
      using Cons.prems by (auto split: option.splits if_splits)
    then obtain g' where g': "xhtml_lazy cs = Some (g', r)" "g = c # g'"
      by auto
    from Cons.IH [OF g'(1)] obtain u tail where
      "g' = u @ ''.xhtml''" "dquote \<notin> set u" "CHR ''#'' \<notin> set u" "cs = g' @ tail" "link_tail tail = Some r"
      by blast
    then show ?thesis
      using nq g'(2) by (intro exI [of _ "c # u"] exI [of _ tail]) auto
  qed
qed

section \<open>The link pattern inside a chapter body\<close>

lemma href_at_not_h: "c \<noteq> CHR ''h'' \<Longrightarrow> href_at (c # cs) = None"
  by (simp add: href_at_def)

lemma takeWhile_until:
  "x \<notin> set a \<Longrightarrow> takeWhile (\<lambda>c. c \<noteq> x) (a @ x # r) = a"
  by (induction a) auto

lemma split_at_first:
  assumes "x \<notin> set a" "x \<notin> set b" "a @ x # r = b @ x # r'"
  shows "a = b \<and> r = r'"
proof -
  have "takeWhile (\<lambda>c. c \<noteq> x) (a @ x # r) = a" "takeWhile (\<lambda>c. c \<noteq> x) (b @ x # r') = b"
    using assms(1,2) by (simp_all add: takeWhile_until)
  then have "a = b" using assms(3) by simp
  then show ?thesis using assms(3) by simp
qed

lemma href_prefix_quote_free:
  assumes "prefix (''href='' @ [dquote]) (T @ dquote # rest)" "dquote \<notin> set T"
  shows "T = ''href=''"
proof -
  obtain z where "T @ dquote # rest = ''href='' @ dquote # z"
    using assms(1) by (auto simp: prefix_def)
  then show ?thesis
    using split_at_first [of dquote T "''href=''" rest z] assms(2) by simp
qed

lemma href_no_straddle:
  assumes "prefix (''href='' @ [dquote]) (a @ ''href='' @ dquote # z)" "a \<noteq> []"
  shows "prefix (''href='' @ [dquote]) a"
proof (rule ccontr)
  assume n: "\<not> prefix (''href='' @ [dquote]) a"
  then obtain us where us: "''href='' @ [dquote] = a @ us" "prefix us (''href='' @ dquote # z)"
    using assms by (auto simp: prefix_append)
  from us(1) assms(2) n us(2) show False
    by (auto simp: append_eq_Cons_conv Cons_eq_append_conv)
qed

lemma re_sub_href_before:
  assumes "\<not> occurs (''href='' @ [dquote]) pre"
  shows "re_sub href_at r (pre @ ''href='' @ dquote # z) = pre @ re_sub href_at r (''href='' @ dquote # z)"
proof (rule re_sub_skip_prefix)
  fix k assume k: "k < length pre"
  show "href_at (drop k pre @ ''href='' @ dquote # z) = None"
  proof (rule ccontr)
    assume "href_at (drop k pre @ ''href='' @ dquote # z) \<noteq> None"
    then have "prefix (''href='' @ [dquote]) (drop k pre @ ''href='' @ dquote # z)"
      by (auto dest: href_at_prefix)
    moreover have "drop k pre \<noteq> []"
      using k by simp
    ultimately have "prefix (''href='' @ [dquote]) (drop k pre)"
      by (rule href_no_straddle)
    then have "occurs (''href='' @ [dquote]) pre"
      using k by (auto simp: occurs_iff intro!: exI [of _ k])
    then show False using assms by simp
  qed
qed

lemma href_at_no_match:
  assumes "dquote \<notin> set T" "\<not> suffix ''.xhtml'' (takeWhile (\<lambda>c. c \<noteq> CHR ''#'') T)"
  shows "href_at (''href='' @ dquote # T @ dquote # rest) = None"
proof (rule ccontr)
  assume "href_at (''href='' @ dquote # T @ dquote # rest) \<noteq> None"
  then have ne: "href_at (''href='' @ dquote # (T @ dquote # rest)) \<noteq> None"
    by simp
  obtain c cs where cs1: "T @ dquote # rest = c # cs"
    by (cases "T @ dquote # rest") auto
  have "(if c \<noteq> dquote \<and> c \<noteq> CHR ''#''
         then map_option (\<lambda>(g, r). (c # g, r)) (xhtml_lazy cs) else None) \<noteq> None"
    using ne unfolding cs1 by (simp add: href_at_def)
  then obtain g' r where cs: "T @ dquote # rest = c # cs" "c \<noteq> dquote" "c \<noteq> CHR ''#''"
      and lz: "xhtml_lazy cs = Some (g', r)"
    using cs1 by (auto split: if_splits)
  from xhtml_lazy_sound [OF lz] obtain u tail where
    u: "g' = u @ ''.xhtml''" "dquote \<notin> set u" "CHR ''#'' \<notin> set u" "cs = g' @ tail"
      "link_tail tail = Some r"
    by blast
  define G where "G = c # u @ ''.xhtml''"
  have G: "dquote \<notin> set G" "CHR ''#'' \<notin> set G" "suffix ''.xhtml'' G"
    using cs(2,3) u(2,3) by (auto simp: G_def suffix_def)
  have eq: "T @ dquote # rest = G @ tail"
    using cs(1) u(1,4) by (simp add: G_def)
  from link_tail_cases [OF u(5)] show False
  proof
    assume "tail = dquote # r"
    then have "T = G"
      using eq split_at_first [of dquote T G rest r] assms(1) G(1) by simp
    then have "takeWhile (\<lambda>c. c \<noteq> CHR ''#'') T = G"
      using G(2) by auto
    then show False using assms(2) G(3) by simp
  next
    assume "\<exists>frag. dquote \<notin> set frag \<and> tail = CHR ''#'' # frag @ dquote # r"
    then obtain frag where f: "dquote \<notin> set frag" "tail = CHR ''#'' # frag @ dquote # r"
      by blast
    have "T @ dquote # rest = (G @ CHR ''#'' # frag) @ dquote # r"
      using eq f(2) by simp
    then have "T = G @ CHR ''#'' # frag"
      using split_at_first [of dquote T "G @ CHR ''#'' # frag" rest r] assms(1) G(1) f(1) by simp
    then have "takeWhile (\<lambda>c. c \<noteq> CHR ''#'') T = G"
      using G(2) by (simp add: takeWhile_until)
    then show False using assms(2) G(3) by simp
  qed
qed

lemma re_sub_href_value:
  assumes "dquote \<notin> set T" "\<not> suffix ''href='' T"
  shows "re_sub href_at r (T @ dquote # rest) = T @ dquote # re_sub href_at r rest"
  using assms
proof (induction T)
  case Nil
  show ?case by (simp add: re_sub_no_match href_at_not_h)
next
  case (Cons c T)
  have "href_at (c # T @ dquote # rest) = None"
  proof (rule ccontr)
    assume "href_at (c # T @ dquote # rest) \<noteq> None"
    then have "prefix (''href='' @ [dquote]) ((c # T) @ dquote # rest)"
      by (auto dest: href_at_prefix)
    then have "c # T = ''href=''"
      using Cons.prems(1) by (intro href_prefix_quote_free)
    then show False using Cons.prems(2) by simp
  qed
  moreover have "\<not> suffix ''href='' T"
    using Cons.prems(2) by (auto simp: suffix_Cons)
  ultimately show ?case
    using Cons by (simp add: re_sub_no_match)
qed

lemma re_sub_href_unchanged:
  assumes "dquote \<notin> set T" "\<not> suffix ''.xhtml'' (takeWhile (\<lambda>c. c \<noteq> CHR ''#'') T)"
    "\<not> suffix ''href='' T"
  shows "re_sub href_at r (''href='' @ dquote # T @ dquote # rest)
           = ''href='' @ dquote # T @ dquote # re_sub href_at r rest"
proof -
  have "href_at (CHR ''h'' # ''ref='' @ dquote # T @ dquote # rest) = None"
    using href_at_no_match [OF assms(1,2), of rest] by simp
  then show ?thesis
    using re_sub_href_value [OF assms(1,3), of r rest]
    by (simp add: re_sub_no_match href_at_not_h)
qed

lemma re_sub_href_rewritten:
  assumes "t \<noteq> []" "dquote \<notin> set t" "CHR ''#'' \<notin> set t" "link_tail (m @ rest) = Some rest" "m \<noteq> []"
  shows "re_sub href_at r (''href='' @ dquote # t @ ''.xhtml'' @ m @ rest)
           = r (t @ ''.xhtml'') @ re_sub href_at r rest"
proof -
  have "href_at ((''href='' @ dquote # t @ ''.xhtml'' @ m) @ rest) = Some (t @ ''.xhtml'', rest)"
    using href_at_complete [OF assms(1-4)] by simp
  then show ?thesis
    using re_sub_match [where m = href_at and a = "''href='' @ dquote # t @ ''.xhtml'' @ m"
        and rest = rest and g = "t @ ''.xhtml''" and r = r]
    by simp
qed

lemma not_suffix_xhtml_html: "\<not> suffix ''.xhtml'' (t @ ''.html'')"
proof
  assume "suffix ''.xhtml'' (t @ ''.html'')"
  then obtain z where "t @ ''.html'' = (z @ ''.'') @ ''xhtml''"
    by (auto simp: suffix_def)
  then have "''.html'' = ''xhtml''"
    by (subst (asm) append_eq_append_conv) simp_all
  then show False by simp
qed

lemma not_suffix_href_html: "\<not> suffix ''href='' (t @ ''.html'')"
proof
  assume "suffix ''href='' (t @ ''.html'')"
  then obtain z where "t @ ''.html'' = z @ ''href=''"
    by (auto simp: suffix_def)
  then have "''.html'' = ''href=''"
    by (subst (asm) append_eq_append_conv) simp_all
  then show False by simp
qed

section \<open>What the flattening loop computes\<close>

lemma read_text_file_text:
  "read_text disk p = Inr content \<Longrightarrow> file_text disk p = content"
  by (auto simp: read_text_def file_text_def split: option.splits node.splits)

lemma flatten_loop_survivors:
  "flatten_loop np disk sc xs st = Inr st' \<Longrightarrow>
     all_bodies st' = all_bodies st
        @ map (survivor_block disk) (surviving disk (sc \<and> \<not> skipped_cover st) xs)
     \<and> all_css st' = all_css st
        \<union> (\<Union>e \<in> set (surviving disk (sc \<and> \<not> skipped_cover st) xs). survivor_css np disk e)"
proof (induction xs arbitrary: st)
  case Nil
  then show ?case by simp
next
  case (Cons x xs)
  obtain i it where x: "x = (i, it)" by (cases x)
  show ?case
  proof (cases "path_exists disk (full_path it)")
    case False
    then show ?thesis using Cons x by simp
  next
    case ex: True
    show ?thesis
    proof (cases "sc \<and> \<not> skipped_cover st \<and> is_cover_page disk (full_path it) it")
      case True
      then have "flatten_loop np disk sc xs (st\<lparr>skipped_cover := True\<rparr>) = Inr st'"
        using Cons.prems x ex by simp
      from Cons.IH [OF this] show ?thesis
        using True x ex by simp
    next
      case False
      have step: "flatten_loop np disk sc (x # xs) st =
          (case read_text disk (full_path it) of
             Inl e \<Rightarrow> Inl e
           | Inr content \<Rightarrow>
               flatten_loop np disk sc xs
                 (st\<lparr>all_css := all_css st \<union> set (chapter_css np disk (full_path it) content),
                     all_bodies := all_bodies st @ [chapter_block i it content]\<rparr>))"
        unfolding x
        by (subst flatten_loop.simps)
          (simp only: Let_def ex not_True_eq_False if_False if_not_P [OF False])
      then obtain content where c: "read_text disk (full_path it) = Inr content"
        and loop: "flatten_loop np disk sc xs
            (st\<lparr>all_css := all_css st \<union> set (chapter_css np disk (full_path it) content),
                all_bodies := all_bodies st @ [chapter_block i it content]\<rparr>) = Inr st'"
        using Cons.prems by (cases "read_text disk (full_path it)") simp_all
      have sv: "surviving disk (sc \<and> \<not> skipped_cover st) (x # xs)
          = (i, it) # surviving disk (sc \<and> \<not> skipped_cover st) xs"
        using False x ex by auto
      from Cons.IH [OF loop] show ?thesis
        unfolding sv using read_text_file_text [OF c]
        by (auto simp: survivor_block_def survivor_css_def)
    qed
  qed
qed

lemma surviving_count:
  "length (surviving disk sc xs)
     + (if sc \<and> (\<exists>e \<in> set xs. path_exists disk (full_path (snd e))
                    \<and> is_cover_page disk (full_path (snd e)) (snd e)) then 1 else 0)
   = length (filter (\<lambda>e. path_exists disk (full_path (snd e))) xs)"
proof (induction xs arbitrary: sc)
  case Nil
  show ?case by simp
next
  case (Cons x xs)
  obtain i it where x: "x = (i, it)" by (cases x)
  define C where "C = (\<lambda>e :: nat \<times> item. path_exists disk (full_path (snd e))
                    \<and> is_cover_page disk (full_path (snd e)) (snd e))"
  have IH1: "length (surviving disk sc xs) + (if sc \<and> (\<exists>e \<in> set xs. C e) then 1 else 0)
      = length (filter (\<lambda>e. path_exists disk (full_path (snd e))) xs)"
    using Cons [of sc] by (simp add: C_def)
  have IH2: "length (surviving disk False xs)
      = length (filter (\<lambda>e. path_exists disk (full_path (snd e))) xs)"
    using Cons [of False] by simp
  have ex_Cons: "(\<exists>e \<in> set (x # xs). C e) = (C x \<or> (\<exists>e \<in> set xs. C e))"
    by simp
  have goal: "length (surviving disk sc (x # xs))
      + (if sc \<and> (\<exists>e \<in> set (x # xs). C e) then 1 else 0)
      = length (filter (\<lambda>e. path_exists disk (full_path (snd e))) (x # xs))"
  proof (cases "path_exists disk (full_path it)")
    case False
    then have "\<not> C x" by (simp add: C_def x)
    then show ?thesis
      unfolding ex_Cons using False IH1 x by simp
  next
    case ex: True
    show ?thesis
    proof (cases "sc \<and> is_cover_page disk (full_path it) it")
      case True
      then have "C x" using ex by (simp add: C_def x)
      then show ?thesis
        unfolding ex_Cons using True ex IH2 x by simp
    next
      case False
      then have "sc \<Longrightarrow> \<not> C x" by (simp add: C_def x)
      then have "(sc \<and> (C x \<or> (\<exists>e \<in> set xs. C e))) = (sc \<and> (\<exists>e \<in> set xs. C e))"
        by blast
      moreover have "surviving disk sc (x # xs) = x # surviving disk sc xs"
        using False ex x by auto
      ultimately show ?thesis
        unfolding ex_Cons using ex IH1 x by simp
    qed
  qed
  then show ?case by (simp add: C_def)
qed

lemma flatten_loop_total:
  "\<forall>e \<in> set xs. disk (full_path (snd e)) \<noteq> Some Dir \<Longrightarrow>
     \<exists>st'. flatten_loop np disk sc xs st = Inr st'"
proof (induction xs arbitrary: st)
  case Nil
  show ?case by simp
next
  case (Cons x xs)
  obtain i it where x: "x = (i, it)" by (cases x)
  have "path_exists disk (full_path it) \<Longrightarrow> \<exists>content. read_text disk (full_path it) = Inr content"
    using Cons.prems x
    by (auto simp: path_exists_def read_text_def split: option.splits node.splits)
  moreover have "\<And>st. \<exists>st'. flatten_loop np disk sc xs st = Inr st'"
    using Cons by simp
  ultimately show ?case
    unfolding x by (auto simp: Let_def split: sum.splits)
qed

lemma flatten_survivors:
  assumes "flatten np disk spine sc = Inr doc"
  shows "blocks doc = map (survivor_block disk) (surviving disk sc (enumerate 0 spine))"
    and "stylesheets doc =
      sorted_list_of_set (\<Union>e \<in> set (surviving disk sc (enumerate 0 spine)). survivor_css np disk e)"
proof -
  obtain st where st: "flatten_loop np disk sc (enumerate 0 spine)
        \<lparr>all_css = {}, all_bodies = [], skipped_cover = False\<rparr> = Inr st"
    and doc: "doc = \<lparr>stylesheets = sorted_list_of_set (all_css st), blocks = all_bodies st\<rparr>"
    using assms by (auto simp: flatten_def split: sum.splits)
  from flatten_loop_survivors [OF st] show
    "blocks doc = map (survivor_block disk) (surviving disk sc (enumerate 0 spine))"
    "stylesheets doc =
      sorted_list_of_set (\<Union>e \<in> set (surviving disk sc (enumerate 0 spine)). survivor_css np disk e)"
    by (simp_all add: doc)
qed

lemma flatten_total:
  assumes "\<forall>it \<in> set spine. disk (full_path it) \<noteq> Some Dir"
  shows "\<exists>doc. flatten np disk spine sc = Inr doc"
proof -
  have "\<forall>e \<in> set (enumerate 0 spine). disk (full_path (snd e)) \<noteq> Some Dir"
    using assms by (auto simp: in_set_enumerate_eq)
  from flatten_loop_total [OF this] show ?thesis
    by (auto simp: flatten_def split: sum.splits) (metis Inl_Inr_False)
qed

section \<open>The enumerated spine\<close>

lemma enumerate_filter_snd:
  "length (filter (\<lambda>e. P (snd e)) (enumerate n xs)) = length (filter P xs)"
  using length_filter_map [of P snd "enumerate n xs"]
  unfolding map_snd_enumerate comp_def by simp

lemma enumerate_bex_snd:
  "(\<exists>e \<in> set (enumerate n xs). P (snd e)) = (\<exists>x \<in> set xs. P x)"
proof -
  have "(\<exists>e \<in> set (enumerate n xs). P (snd e)) = (\<exists>x \<in> set (map snd (enumerate n xs)). P x)"
    by (simp only: set_map bex_simps)
  then show ?thesis by simp
qed



section \<open>Stylesheets of the surviving chapters\<close>

lemma finite_survivor_css:
  "finite (\<Union>e \<in> set xs. survivor_css np disk e)"
  by (simp add: survivor_css_def)

lemma survivor_css_iff:
  "css \<in> survivor_css np disk e \<longleftrightarrow>
     path_exists disk css \<and>
     (\<exists>h \<in> set (css_hrefs (file_text disk (full_path (snd e)))).
        css = np (path_join (dirname (full_path (snd e))) h))"
  by (auto simp: survivor_css_def chapter_css_def)



section \<open>Lower case and file names\<close>

lemma py_lower_char_slash: "py_lower_char c = CHR ''/'' \<longleftrightarrow> c = CHR ''/''"
proof -
  define k where "k = (of_char c :: nat)"
  define cap where "cap = ((65 \<le> k \<and> k \<le> 90) \<or> (192 \<le> k \<and> k \<le> 222 \<and> k \<noteq> 215))"
  have low: "py_lower_char c = (if cap then char_of (k + 32) else c)"
    unfolding py_lower_char_def Let_def k_def cap_def ..
  have slash: "(of_char (CHR ''/'') :: nat) = 47"
    by simp
  show ?thesis
  proof (cases cap)
    case False
    then show ?thesis by (simp add: low)
  next
    case True
    then have lt: "k + 32 < 256" and ne: "k + 32 \<noteq> 47" and k47: "k \<noteq> 47"
      unfolding cap_def by arith+
    have "(of_char (char_of (k + 32)) :: nat) = k + 32"
      using lt by (simp only: of_char_of mod_less)
    then have "char_of (k + 32) \<noteq> CHR ''/''"
      using ne slash by metis
    moreover have "c \<noteq> CHR ''/''"
      using k47 slash unfolding k_def by metis
    ultimately show ?thesis
      using True by (simp only: low if_True simp_thms)
  qed
qed

lemma basename_py_lower: "basename (py_lower s) = py_lower (basename s)"
proof -
  have "(\<lambda>c. c \<noteq> CHR ''/'') \<circ> py_lower_char = (\<lambda>c. c \<noteq> CHR ''/'')"
    by (auto simp: py_lower_char_slash)
  then show ?thesis
    by (simp add: basename_def py_lower_def rev_map takeWhile_map)
qed


section \<open>Anchor ids and file names\<close>

lemma replace_from_absent:
  "\<not> occurs old s \<Longrightarrow> replace_from 0 old new s = s"
  by (induction s) auto

lemma replace_from_skip:
  "replace_from (length xs) old new (xs @ ys) = replace_from 0 old new ys"
  by (induction xs) simp_all

lemma xhtml_no_straddle:
  assumes "prefix ''.xhtml'' (a @ ''.xhtml'')" "a \<noteq> []"
  shows "prefix ''.xhtml'' a"
proof (rule ccontr)
  assume n: "\<not> prefix ''.xhtml'' a"
  then obtain us where us: "''.xhtml'' = a @ us" "prefix us ''.xhtml''"
    using assms by (auto simp: prefix_append)
  from us(1) assms(2) n us(2) show False
    by (auto simp: append_eq_Cons_conv Cons_eq_append_conv)
qed

lemma replace_from_step:
  "\<not> prefix old (c # cs) \<Longrightarrow> replace_from 0 old new (c # cs) = c # replace_from 0 old new cs"
  by simp

lemma replace_xhtml_suffix:
  "\<not> occurs ''.xhtml'' stem \<Longrightarrow> replace_from 0 ''.xhtml'' [] (stem @ ''.xhtml'') = stem"
proof (induction stem)
  case Nil
  show ?case by simp
next
  case (Cons c stem)
  have a: "\<not> prefix ''.xhtml'' (c # stem)" and b: "\<not> occurs ''.xhtml'' stem"
    using Cons.prems by auto
  have "\<not> prefix ''.xhtml'' ((c # stem) @ ''.xhtml'')"
    using xhtml_no_straddle [of "c # stem"] a by blast
  then have "\<not> prefix ''.xhtml'' (c # (stem @ ''.xhtml''))"
    by (simp del: Cons_prefix_Cons)
  from replace_from_step [OF this] have
    "replace_from 0 ''.xhtml'' [] (c # (stem @ ''.xhtml'')) = c # replace_from 0 ''.xhtml'' [] (stem @ ''.xhtml'')" .
  then show ?case
    using Cons.IH [OF b] by (simp del: replace_from.simps)
qed

lemma stem_anchor_id:
  assumes "basename (href it) = stem @ ''.xhtml''" "\<not> occurs ''.xhtml'' stem" "\<not> occurs ''.html'' stem"
  shows "item_anchor_id it = stem"
  using assms
  by (simp add: item_anchor_id_def py_replace_def replace_xhtml_suffix replace_from_absent
      del: replace_from.simps)

lemma survivor_anchor_id: "anchor_id (survivor_block disk e) = item_anchor_id (snd e)"
  by (simp add: survivor_block_def chapter_block_def)

lemma rewrite_links_target:
  assumes "\<not> occurs (''href='' @ [dquote]) pre" "t \<noteq> []" "dquote \<notin> set t" "CHR ''#'' \<notin> set t"
    "link_tail (m @ rest) = Some rest" "m \<noteq> []"
  shows "rewrite_links (pre @ ''href='' @ dquote # t @ ''.xhtml'' @ m @ rest)
     = pre @ ''href='' @ dquote # ''#'' @ py_replace ''.xhtml'' [] (t @ ''.xhtml'')
         @ dquote # rewrite_links rest"
  using re_sub_href_before [OF assms(1), of anchor_href "t @ ''.xhtml'' @ m @ rest"]
    re_sub_href_rewritten [OF assms(2-6), of anchor_href]
  by (simp add: rewrite_links_def anchor_href_def)

section \<open>The first steps of a run\<close>

lemma convert_steps_no_container:
  assumes "extract_epub env disk epub_path extract_dir = (Inr (), d1)"
    "\<not> path_exists d1 (path_join (path_join extract_dir ''META-INF'') ''container.xml'')"
  shows "fst (convert_steps env disk epub_path pdf_path extract_dir)
     = Inl (FileNotFoundError ''No META-INF/container.xml found - not a valid EPUB'')"
  using assms by (simp add: convert_steps_def parse_opf_def Let_def)

lemma convert_steps_no_rootfile:
  assumes "extract_epub env disk epub_path extract_dir = (Inr (), d1)"
    "et_parse (et_parse_text env) d1 (path_join (path_join extract_dir ''META-INF'') ''container.xml'')
       = Inr container"
    "find_descendant rootfile_tag container = None"
  shows "fst (convert_steps env disk epub_path pdf_path extract_dir)
     = Inl (ValueError ''No rootfile found in container.xml'')"
proof -
  have "path_exists d1 (path_join (path_join extract_dir ''META-INF'') ''container.xml'')"
    using assms(2) by (auto simp: et_parse_def path_exists_def split: option.splits)
  then show ?thesis
    using assms by (simp add: convert_steps_def parse_opf_def Let_def)
qed

lemma under_join:
  "\<not> prefix ''/'' x \<Longrightarrow> under d (path_join d x)"
  by (auto simp: under_def path_join_def)


lemma run_no_container:
  "extract_epub (stub_env extract_no_container)
      (Map.empty(tempfile_mkdtemp (stub_env extract_no_container) Map.empty \<mapsto> Dir))
      ''/in/book.epub'' (tempfile_mkdtemp (stub_env extract_no_container) Map.empty)
     = (Inr (), Map.empty(''/tmp/epub2pdf_extract_x'' \<mapsto> Dir,
          ''/tmp/epub2pdf_extract_x/mimetype'' \<mapsto> File ''application/epub+zip''))"
  by (simp add: stub_env_def extract_no_container_def)

lemma run_bare_container:
  "extract_epub (stub_env extract_bare_container)
      (Map.empty(tempfile_mkdtemp (stub_env extract_bare_container) Map.empty \<mapsto> Dir))
      ''/in/book.epub'' (tempfile_mkdtemp (stub_env extract_bare_container) Map.empty)
     = (Inr (), Map.empty(''/tmp/epub2pdf_extract_x'' \<mapsto> Dir,
          ''/tmp/epub2pdf_extract_x/META-INF'' \<mapsto> Dir,
          ''/tmp/epub2pdf_extract_x/META-INF/container.xml'' \<mapsto> File ''<container/>''))"
  by (simp add: stub_env_def extract_bare_container_def)


section \<open>The matchers of the detector and the rule in words\<close>


lemma spelt_length: "spelt p w \<Longrightarrow> length w = length p"
  unfolding spelt_def py_lower_def by (metis length_map)

lemma ci_prefix_iff: "ci_prefix p s \<longleftrightarrow> (\<exists>w r. s = w @ r \<and> spelt p w)"
proof (induction p s rule: ci_prefix.induct)
  case (1 s)
  show ?case by (simp add: spelt_def py_lower_def)
next
  case (2 p ps)
  show ?case by (simp add: spelt_def py_lower_def)
next
  case (3 p ps c cs)
  show ?case
  proof
    assume "ci_prefix (p # ps) (c # cs)"
    then have h: "py_lower_char c = py_lower_char p" and "ci_prefix ps cs" by auto
    then obtain w r where "cs = w @ r" "spelt ps w" using 3 by auto
    then have "c # cs = (c # w) @ r \<and> spelt (p # ps) (c # w)"
      using h by (simp add: spelt_def py_lower_def)
    then show "\<exists>w r. c # cs = w @ r \<and> spelt (p # ps) w" by blast
  next
    assume "\<exists>w r. c # cs = w @ r \<and> spelt (p # ps) w"
    then obtain w r where wr: "c # cs = w @ r" "spelt (p # ps) w" by auto
    then obtain w' where w: "w = c # w'"
      by (cases w) (auto simp: spelt_def py_lower_def)
    then have "cs = w' @ r" "spelt ps w'" "py_lower_char c = py_lower_char p"
      using wr by (auto simp: spelt_def py_lower_def)
    then show "ci_prefix (p # ps) (c # cs)"
      using 3 by auto
  qed
qed

lemma ci_prefix_drop:
  "ci_prefix p s \<longleftrightarrow> (\<exists>w. s = w @ drop (length p) s \<and> spelt p w)"
proof
  assume "ci_prefix p s"
  then obtain w r where "s = w @ r" "spelt p w" unfolding ci_prefix_iff by auto
  then show "\<exists>w. s = w @ drop (length p) s \<and> spelt p w"
    using spelt_length by (intro exI [of _ w]) auto
next
  assume "\<exists>w. s = w @ drop (length p) s \<and> spelt p w"
  then show "ci_prefix p s" unfolding ci_prefix_iff by blast
qed

lemma ci_prefix_take:
  "ci_prefix p s \<longleftrightarrow> length p \<le> length s \<and> spelt p (take (length p) s)"
proof
  assume "ci_prefix p s"
  then obtain w r where h: "s = w @ r" "spelt p w" unfolding ci_prefix_iff by auto
  then have "length w = length p" using spelt_length by auto
  then show "length p \<le> length s \<and> spelt p (take (length p) s)"
    using h by auto
next
  assume "length p \<le> length s \<and> spelt p (take (length p) s)"
  then have "s = take (length p) s @ drop (length p) s \<and> spelt p (take (length p) s)"
    by simp
  then show "ci_prefix p s" unfolding ci_prefix_iff by blast
qed

lemma re_search_Some_iff:
  "re_search m s = Some r \<longleftrightarrow>
     (\<exists>n \<le> length s. m (drop n s) = Some r \<and> (\<forall>k < n. m (drop k s) = None))"
proof (induction s)
  case Nil
  show ?case by auto
next
  case (Cons c cs)
  show ?case
  proof (cases "m (c # cs)")
    case (Some x)
    show ?thesis
    proof
      assume "re_search m (c # cs) = Some r"
      then have "x = r" using Some by simp
      then show "\<exists>n \<le> length (c # cs). m (drop n (c # cs)) = Some r \<and> (\<forall>k < n. m (drop k (c # cs)) = None)"
        using Some by (intro exI [of _ 0]) simp
    next
      assume "\<exists>n \<le> length (c # cs). m (drop n (c # cs)) = Some r \<and> (\<forall>k < n. m (drop k (c # cs)) = None)"
      then obtain n where n: "m (drop n (c # cs)) = Some r" "\<forall>k < n. m (drop k (c # cs)) = None"
        by auto
      have "n = 0"
      proof (rule ccontr)
        assume "n \<noteq> 0"
        then have "m (drop 0 (c # cs)) = None" using n(2) by blast
        then show False using Some by simp
      qed
      then show "re_search m (c # cs) = Some r" using n(1) Some by simp
    qed
  next
    case None
    have step: "re_search m (c # cs) = re_search m cs" using None by simp
    show ?thesis
    proof
      assume "re_search m (c # cs) = Some r"
      then obtain n where n: "n \<le> length cs" "m (drop n cs) = Some r" "\<forall>k < n. m (drop k cs) = None"
        using Cons.IH step by auto
      have "\<forall>k < Suc n. m (drop k (c # cs)) = None"
      proof (intro allI impI)
        fix k assume "k < Suc n"
        then show "m (drop k (c # cs)) = None"
          using None n(3) by (cases k) auto
      qed
      then show "\<exists>n \<le> length (c # cs). m (drop n (c # cs)) = Some r \<and> (\<forall>k < n. m (drop k (c # cs)) = None)"
        using n(1,2) by (intro exI [of _ "Suc n"]) simp
    next
      assume "\<exists>n \<le> length (c # cs). m (drop n (c # cs)) = Some r \<and> (\<forall>k < n. m (drop k (c # cs)) = None)"
      then obtain n where n: "n \<le> length (c # cs)" "m (drop n (c # cs)) = Some r"
          "\<forall>k < n. m (drop k (c # cs)) = None"
        by auto
      then obtain j where j: "n = Suc j" using None by (cases n) auto
      have "\<forall>k < j. m (drop k cs) = None"
      proof (intro allI impI)
        fix k assume "k < j"
        then have "m (drop (Suc k) (c # cs)) = None" using n(3) j by blast
        then show "m (drop k cs) = None" by simp
      qed
      then have "re_search m cs = Some r"
        using Cons.IH n(1,2) j by auto
      then show "re_search m (c # cs) = Some r" using step by simp
    qed
  qed
qed

lemma re_search_found_iff:
  "re_search m s \<noteq> None \<longleftrightarrow> (\<exists>n \<le> length s. m (drop n s) \<noteq> None)"
proof (induction s)
  case Nil
  show ?case by auto
next
  case (Cons c cs)
  show ?case
  proof (cases "m (c # cs)")
    case (Some x)
    then show ?thesis by (auto intro!: exI [of _ 0])
  next
    case None
    have "(\<exists>n \<le> length (c # cs). m (drop n (c # cs)) \<noteq> None) \<longleftrightarrow> (\<exists>n \<le> length cs. m (drop n cs) \<noteq> None)"
    proof
      assume "\<exists>n \<le> length (c # cs). m (drop n (c # cs)) \<noteq> None"
      then obtain n where n: "n \<le> length (c # cs)" "m (drop n (c # cs)) \<noteq> None" by auto
      then obtain j where "n = Suc j" using None by (cases n) auto
      then show "\<exists>n \<le> length cs. m (drop n cs) \<noteq> None" using n by (intro exI [of _ j]) auto
    next
      assume "\<exists>n \<le> length cs. m (drop n cs) \<noteq> None"
      then obtain n where "n \<le> length cs" "m (drop n cs) \<noteq> None" by auto
      then show "\<exists>n \<le> length (c # cs). m (drop n (c # cs)) \<noteq> None" by (intro exI [of _ "Suc n"]) auto
    qed
    then show ?thesis using None Cons.IH by simp
  qed
qed


lemma img_at_iff:
  "img_at s \<noteq> None \<longleftrightarrow> (\<exists>w c post. s = w @ c # post \<and> spelt ''<img'' w \<and> py_isspace c)"
proof
  assume a: "img_at s \<noteq> None"
  then have ci: "ci_prefix ''<img'' s"
    by (auto simp: img_at_def split: if_splits)
  have len: "length ''<img'' = 4" by simp
  have "spelt ''<img'' (take 4 s)"
    using ci unfolding ci_prefix_take len by simp
  then have "s = take 4 s @ drop 4 s \<and> spelt ''<img'' (take 4 s)"
    by simp
  then obtain w where w: "s = w @ drop 4 s" "spelt ''<img'' w"
    by blast
  obtain c post where d: "drop 4 s = c # post" "py_isspace c"
    using a ci by (auto simp: img_at_def split: if_splits list.splits)
  show "\<exists>w c post. s = w @ c # post \<and> spelt ''<img'' w \<and> py_isspace c"
    using w d by metis
next
  assume "\<exists>w c post. s = w @ c # post \<and> spelt ''<img'' w \<and> py_isspace c"
  then obtain w c post where h: "s = w @ c # post" "spelt ''<img'' w" "py_isspace c" by auto
  have "length w = 4" using spelt_length [OF h(2)] by simp
  then have "drop 4 s = c # post" using h(1) by simp
  moreover have "ci_prefix ''<img'' s"
    unfolding ci_prefix_iff using h by blast
  ultimately show "img_at s \<noteq> None"
    using h(3) by (simp add: img_at_def)
qed

lemma search_img_iff: "search_img b \<longleftrightarrow> has_image_tag b"
proof
  assume "search_img b"
  then obtain n where "n \<le> length b" "img_at (drop n b) \<noteq> None"
    unfolding search_img_def re_search_found_iff by auto
  then obtain w c post where "drop n b = w @ c # post" "spelt ''<img'' w" "py_isspace c"
    unfolding img_at_iff by auto
  then have "b = take n b @ w @ c # post \<and> spelt ''<img'' w \<and> py_isspace c"
    by (metis append_take_drop_id)
  then show "has_image_tag b"
    unfolding has_image_tag_def by blast
next
  assume "has_image_tag b"
  then obtain pre w c post where h: "b = pre @ w @ c # post" "spelt ''<img'' w" "py_isspace c"
    unfolding has_image_tag_def by auto
  have "img_at (drop (length pre) b) \<noteq> None"
    unfolding img_at_iff using h by auto
  moreover have "length pre \<le> length b" using h(1) by simp
  ultimately show "search_img b"
    unfolding search_img_def re_search_found_iff by blast
qed

lemma trimmed_iff: "trimmed s t \<longleftrightarrow> t = py_strip s"
proof
  assume "trimmed s t"
  then obtain a b where h: "s = a @ t @ b" "\<forall>c \<in> set a \<union> set b. py_isspace c"
      "t \<noteq> [] \<longrightarrow> \<not> py_isspace (hd t) \<and> \<not> py_isspace (last t)"
    unfolding trimmed_def by auto
  show "t = py_strip s"
  proof (cases "t = []")
    case True
    have "\<forall>x \<in> set (a @ b). py_isspace x"
      using h(2) by auto
    then have dw: "dropWhile py_isspace (a @ b) = []"
      by (simp only: dropWhile_eq_Nil_conv)
    show ?thesis
      by (simp only: py_strip_def h(1) True append_Nil dw dropWhile.simps rev.simps)
  next
    case False
    then obtain x xs where t: "t = x # xs" by (cases t) auto
    have hd: "\<not> py_isspace x" using h(3) t by simp
    have "dropWhile py_isspace (a @ t @ b) = t @ b"
      using h(2) hd t by (simp add: dropWhile_append3)
    moreover have "dropWhile py_isspace (rev b @ rev t) = rev t"
    proof -
      have "rev t \<noteq> []" using False by simp
      moreover have "\<not> py_isspace (hd (rev t))"
        using h(3) False by (simp add: hd_rev)
      ultimately have d: "dropWhile py_isspace (rev t) = rev t"
        by (cases "rev t") auto
      have "\<And>c. c \<in> set (rev b) \<Longrightarrow> py_isspace c" using h(2) by auto
      then have "dropWhile py_isspace (rev b @ rev t) = dropWhile py_isspace (rev t)"
        by (rule dropWhile_append2)
      then show ?thesis
        using d by simp
    qed
    ultimately show ?thesis
      using h(1) by (simp add: py_strip_def)
  qed
next
  assume t: "t = py_strip s"
  define u where "u = dropWhile py_isspace s"
  define a where "a = takeWhile py_isspace s"
  define b where "b = rev (takeWhile py_isspace (rev u))"
  have s: "s = a @ u" unfolding a_def u_def by simp
  have tu: "t = rev (dropWhile py_isspace (rev u))"
    unfolding t py_strip_def u_def ..
  have "rev u = takeWhile py_isspace (rev u) @ dropWhile py_isspace (rev u)" by simp
  then have "rev (rev u) = rev (takeWhile py_isspace (rev u) @ dropWhile py_isspace (rev u))"
    by (rule arg_cong)
  then have u: "u = t @ b"
    unfolding tu b_def by (simp only: rev_rev_ident rev_append)
  have sp: "\<forall>c \<in> set a \<union> set b. py_isspace c"
    unfolding a_def b_def by (auto dest: set_takeWhileD)
  have ends: "\<not> py_isspace (hd t) \<and> \<not> py_isspace (last t)" if ne: "t \<noteq> []"
  proof
    have "u \<noteq> []" using u ne by simp
    then have "\<not> py_isspace (hd u)"
      unfolding u_def by (rule hd_dropWhile)
    then show "\<not> py_isspace (hd t)" using u ne by simp
    have "dropWhile py_isspace (rev u) \<noteq> []" using tu ne by simp
    then have "\<not> py_isspace (hd (dropWhile py_isspace (rev u)))"
      by (rule hd_dropWhile)
    then show "\<not> py_isspace (last t)"
      using tu ne by (simp add: last_rev)
  qed
  show "trimmed s t"
    unfolding trimmed_def using s u sp ends by (intro exI [of _ a] exI [of _ b]) simp
qed


lemma tag_at_iff: "tag_at s = Some ((), rest) \<longleftrightarrow> (\<exists>t. is_tag t \<and> s = t @ rest)"
proof
  assume a: "tag_at s = Some ((), rest)"
  obtain c d cs where s: "s = c # d # cs"
  proof (cases s)
    case Nil
    then show ?thesis using a by (simp add: tag_at_def)
  next
    case (Cons c r)
    then show ?thesis using a that by (cases r) (simp_all add: tag_at_def)
  qed
  have cd: "c = CHR ''<''" "d \<noteq> CHR ''>''" and af: "after_first (CHR ''>'') cs = Some rest"
    using a unfolding s tag_at_def by (auto split: if_splits)
  obtain u where u: "CHR ''>'' \<notin> set u" "cs = u @ CHR ''>'' # rest"
    using after_first_split [OF af] by auto
  have "is_tag (CHR ''<'' # (d # u) @ ''>'')"
    unfolding is_tag_def using cd(2) u(1) by (intro exI [of _ "d # u"]) simp
  moreover have "s = (CHR ''<'' # (d # u) @ ''>'') @ rest"
    using s cd(1) u(2) by simp
  ultimately show "\<exists>t. is_tag t \<and> s = t @ rest" by blast
next
  assume "\<exists>t. is_tag t \<and> s = t @ rest"
  then obtain t a where t: "s = t @ rest" "t = CHR ''<'' # a @ ''>''" "a \<noteq> []" "CHR ''>'' \<notin> set a"
    unfolding is_tag_def by auto
  obtain d u where a: "a = d # u" using t(3) by (cases a) auto
  have s: "s = CHR ''<'' # d # u @ CHR ''>'' # rest"
    using t(1,2) a by simp
  have "after_first (CHR ''>'') (u @ CHR ''>'' # rest) = Some rest"
    using t(4) a by (intro after_first_append) simp
  moreover have "d \<noteq> CHR ''>''"
    using t(4) a by auto
  ultimately show "tag_at s = Some ((), rest)"
    unfolding s tag_at_def by simp
qed

lemma tag_at_None: "tag_at s = None \<longleftrightarrow> (\<forall>t u. is_tag t \<longrightarrow> s \<noteq> t @ u)"
proof -
  have "tag_at s \<noteq> None \<longleftrightarrow> (\<exists>rest. tag_at s = Some ((), rest))"
    by auto
  then show ?thesis
    unfolding tag_at_iff by blast
qed

lemma is_tag_not_Nil: "is_tag t \<Longrightarrow> t \<noteq> []"
  by (auto simp: is_tag_def)

lemma without_tags_strip: "without_tags s (strip_tags s)"
proof (induction s rule: length_induct)
  case (1 s)
  show ?case
  proof (cases s)
    case Nil
    then show ?thesis
      by (simp add: strip_tags_def re_sub_Nil without_tags.finished)
  next
    case (Cons c cs)
    show ?thesis
    proof (cases "tag_at s")
      case None
      have "strip_tags s = c # strip_tags cs"
        using None unfolding strip_tags_def Cons by (rule re_sub_no_match)
      moreover have "without_tags cs (strip_tags cs)"
        using 1 Cons by simp
      moreover have "\<forall>t u. is_tag t \<longrightarrow> c # cs \<noteq> t @ u"
        using None unfolding tag_at_None Cons .
      ultimately show ?thesis
        unfolding Cons by (simp add: without_tags.keep)
    next
      case (Some x)
      then obtain rest where r: "tag_at s = Some ((), rest)" by (cases x) auto
      then obtain t where t: "is_tag t" "s = t @ rest"
        unfolding tag_at_iff by auto
      have ne: "t \<noteq> []" using t(1) by (rule is_tag_not_Nil)
      have "re_sub tag_at (\<lambda>_. []) (t @ rest) = (\<lambda>_. []) () @ re_sub tag_at (\<lambda>_. []) rest"
        using r ne unfolding t(2) by (rule re_sub_match)
      then have "strip_tags s = strip_tags rest"
        unfolding strip_tags_def t(2) by simp
      moreover have "length rest < length s" using t(2) ne by simp
      then have "without_tags rest (strip_tags rest)" using 1 by simp
      ultimately show ?thesis
        unfolding t(2) using t(1) by (simp add: without_tags.tag)
    qed
  qed
qed

lemma without_tags_unique: "without_tags s r \<Longrightarrow> r = strip_tags s"
proof (induction rule: without_tags.induct)
  case finished
  show ?case by (simp add: strip_tags_def re_sub_Nil)
next
  case (tag t s r)
  have "tag_at (t @ s) = Some ((), s)"
    unfolding tag_at_iff using tag.hyps(1) by blast
  then have "re_sub tag_at (\<lambda>_. []) (t @ s) = (\<lambda>_. []) () @ re_sub tag_at (\<lambda>_. []) s"
    using is_tag_not_Nil [OF tag.hyps(1)] by (rule re_sub_match)
  then show ?case
    using tag.IH by (simp add: strip_tags_def)
next
  case (keep c s r)
  have "tag_at (c # s) = None"
    unfolding tag_at_None using keep.hyps(1) .
  then have "re_sub tag_at (\<lambda>_. []) (c # s) = c # re_sub tag_at (\<lambda>_. []) s"
    by (rule re_sub_no_match)
  then show ?case
    using keep.IH by (simp add: strip_tags_def)
qed

lemma without_tags_iff: "without_tags s r \<longleftrightarrow> r = strip_tags s"
  using without_tags_strip without_tags_unique by blast

lemma occurs_append_iff: "occurs sub s \<longleftrightarrow> (\<exists>a b. s = a @ sub @ b)"
proof
  assume "occurs sub s"
  then obtain k where "prefix sub (drop k s)"
    unfolding occurs_iff by auto
  then obtain b where "drop k s = sub @ b"
    by (auto simp: prefix_def)
  then have "s = take k s @ sub @ b"
    by (metis append_take_drop_id)
  then show "\<exists>a b. s = a @ sub @ b" by blast
next
  assume "\<exists>a b. s = a @ sub @ b"
  then obtain a b where s: "s = a @ sub @ b" by auto
  then have "length a \<le> length s \<and> prefix sub (drop (length a) s)"
    by simp
  then show "occurs sub s"
    unfolding occurs_iff by blast
qed

lemma basename_iff:
  "basename h = f \<longleftrightarrow> (\<exists>d. h = d @ f \<and> CHR ''/'' \<notin> set f \<and> (d = [] \<or> last d = CHR ''/''))"
proof
  assume f: "basename h = f"
  define d where "d = rev (dropWhile (\<lambda>c. c \<noteq> CHR ''/'') (rev h))"
  have "rev h = takeWhile (\<lambda>c. c \<noteq> CHR ''/'') (rev h) @ dropWhile (\<lambda>c. c \<noteq> CHR ''/'') (rev h)"
    by simp
  then have "rev (rev h)
      = rev (takeWhile (\<lambda>c. c \<noteq> CHR ''/'') (rev h) @ dropWhile (\<lambda>c. c \<noteq> CHR ''/'') (rev h))"
    by (rule arg_cong)
  then have h: "h = d @ f"
    unfolding d_def f [symmetric] basename_def by (simp only: rev_rev_ident rev_append)
  have "CHR ''/'' \<notin> set f"
    unfolding f [symmetric] basename_def by (auto dest: set_takeWhileD)
  moreover have "last d = CHR ''/''" if "d \<noteq> []"
  proof -
    have ne: "dropWhile (\<lambda>c. c \<noteq> CHR ''/'') (rev h) \<noteq> []"
      using that unfolding d_def by simp
    then have "\<not> hd (dropWhile (\<lambda>c. c \<noteq> CHR ''/'') (rev h)) \<noteq> CHR ''/''"
      by (rule hd_dropWhile)
    then show ?thesis
      unfolding d_def using ne by (simp add: last_rev)
  qed
  ultimately show "\<exists>d. h = d @ f \<and> CHR ''/'' \<notin> set f \<and> (d = [] \<or> last d = CHR ''/'')"
    using h by blast
next
  assume "\<exists>d. h = d @ f \<and> CHR ''/'' \<notin> set f \<and> (d = [] \<or> last d = CHR ''/'')"
  then obtain d where h: "h = d @ f" "CHR ''/'' \<notin> set f" "d = [] \<or> last d = CHR ''/''"
    by auto
  have "\<And>x. x \<in> set (rev f) \<Longrightarrow> x \<noteq> CHR ''/''"
    using h(2) by auto
  then have "takeWhile (\<lambda>c. c \<noteq> CHR ''/'') (rev f @ rev d)
      = rev f @ takeWhile (\<lambda>c. c \<noteq> CHR ''/'') (rev d)"
    by (rule takeWhile_append2)
  moreover have "takeWhile (\<lambda>c. c \<noteq> CHR ''/'') (rev d) = []"
  proof (cases "d = []")
    case True
    then show ?thesis by simp
  next
    case False
    then have "rev d \<noteq> []" "hd (rev d) = CHR ''/''"
      using h(3) by (simp_all add: hd_rev)
    then show ?thesis by (cases "rev d") auto
  qed
  ultimately show "basename h = f"
    unfolding basename_def h(1) by simp
qed

lemma map_eq_middle:
  assumes "map f xs = a' @ m @ b'"
  shows "\<exists>a w b. xs = a @ w @ b \<and> map f w = m"
proof -
  have "\<exists>a r. xs = a @ r \<and> a' = map f a \<and> m @ b' = map f r"
    using assms by (simp only: map_eq_append_conv)
  then obtain a r where r: "xs = a @ r" "map f r = m @ b'"
    by metis
  have "\<exists>w b. r = w @ b \<and> m = map f w \<and> b' = map f b"
    using r(2) by (simp only: map_eq_append_conv)
  then obtain w b where "r = w @ b" "map f w = m"
    by metis
  then show ?thesis using r(1) by blast
qed

lemma py_lower_cover: "py_lower ''cover'' = ''cover''"
  by code_simp

lemma named_cover_iff:
  "occurs ''cover'' (basename (py_lower (href it))) \<longleftrightarrow> named_cover it"
proof
  assume "occurs ''cover'' (basename (py_lower (href it)))"
  then obtain a' b' where "py_lower (basename (href it)) = a' @ ''cover'' @ b'"
    unfolding basename_py_lower occurs_append_iff by auto
  then have "\<exists>a w b. basename (href it) = a @ w @ b \<and> py_lower w = ''cover''"
    unfolding py_lower_def by (rule map_eq_middle)
  then obtain a w b where awb: "basename (href it) = a @ w @ b" "py_lower w = ''cover''"
    by blast
  obtain d where d: "href it = d @ a @ w @ b" "CHR ''/'' \<notin> set (a @ w @ b)"
      "d = [] \<or> last d = CHR ''/''"
    using awb(1) unfolding basename_iff by auto
  show "named_cover it"
    unfolding named_cover_def spelt_def py_lower_cover using d awb(2) by blast
next
  assume "named_cover it"
  then obtain d a w b where h: "href it = d @ a @ w @ b" "d = [] \<or> last d = CHR ''/''"
      "CHR ''/'' \<notin> set (a @ w @ b)" "py_lower w = ''cover''"
    unfolding named_cover_def spelt_def py_lower_cover by auto
  have "basename (href it) = a @ w @ b"
    unfolding basename_iff using h(1,2,3) by blast
  then have "py_lower (basename (href it)) = py_lower a @ ''cover'' @ py_lower b"
    using h(4) by (simp add: py_lower_def)
  then show "occurs ''cover'' (basename (py_lower (href it)))"
    unfolding basename_py_lower occurs_append_iff by blast
qed


lemma after_first_found_iff:
  "after_first x s \<noteq> None \<longleftrightarrow> (\<exists>v post. s = v @ x # post \<and> x \<notin> set v)"
proof
  assume "after_first x s \<noteq> None"
  then obtain rest where "after_first x s = Some rest" by auto
  then show "\<exists>v post. s = v @ x # post \<and> x \<notin> set v"
    using after_first_split by blast
next
  assume "\<exists>v post. s = v @ x # post \<and> x \<notin> set v"
  then show "after_first x s \<noteq> None"
    using after_first_append by fastforce
qed

lemma ci_prefix_then:
  "ci_prefix p s \<and> Q (drop (length p) s) \<longleftrightarrow> (\<exists>u t. s = u @ t \<and> spelt p u \<and> Q t)"
proof
  assume h: "ci_prefix p s \<and> Q (drop (length p) s)"
  then have "s = take (length p) s @ drop (length p) s \<and> spelt p (take (length p) s)"
    unfolding ci_prefix_take by simp
  then show "\<exists>u t. s = u @ t \<and> spelt p u \<and> Q t"
    using h by blast
next
  assume "\<exists>u t. s = u @ t \<and> spelt p u \<and> Q t"
  then obtain u t where h: "s = u @ t" "spelt p u" "Q t" by auto
  have "length u = length p" using h(2) by (rule spelt_length)
  then have "drop (length p) s = t" using h(1) by simp
  moreover have "ci_prefix p s" unfolding ci_prefix_iff using h by blast
  ultimately show "ci_prefix p s \<and> Q (drop (length p) s)" using h(3) by simp
qed

lemma run_then:
  assumes step: "\<And>c cs. f (c # cs) = ((c \<noteq> x \<and> f cs) \<or> R (c # cs))"
    and nil: "\<not> f []" "\<not> R []"
  shows "f s \<longleftrightarrow> (\<exists>a r. s = a @ r \<and> x \<notin> set a \<and> R r)"
proof (induction s)
  case Nil
  show ?case using nil by simp
next
  case (Cons c cs)
  show ?case
  proof
    assume "f (c # cs)"
    then consider "c \<noteq> x" "f cs" | "R (c # cs)"
      unfolding step by blast
    then show "\<exists>a r. c # cs = a @ r \<and> x \<notin> set a \<and> R r"
    proof cases
      case 1
      then obtain a r where "cs = a @ r" "x \<notin> set a" "R r"
        using Cons.IH by auto
      then show ?thesis
        using 1(1) by (intro exI [of _ "c # a"] exI [of _ r]) simp
    next
      case 2
      then show ?thesis
        by (intro exI [of _ "[]"] exI [of _ "c # cs"]) simp
    qed
  next
    assume "\<exists>a r. c # cs = a @ r \<and> x \<notin> set a \<and> R r"
    then obtain a r where h: "c # cs = a @ r" "x \<notin> set a" "R r" by auto
    show "f (c # cs)"
    proof (cases a)
      case Nil
      then show ?thesis using h unfolding step by simp
    next
      case (Cons d a')
      then have "c \<noteq> x" "cs = a' @ r" "x \<notin> set a'"
        using h by auto
      then have "c \<noteq> x \<and> f cs"
        using Cons.IH h(3) by blast
      then show ?thesis unfolding step by simp
    qed
  qed
qed

lemma cover_in_quotes_iff:
  "cover_in_quotes s \<longleftrightarrow>
     (\<exists>v u v' post. s = v @ u @ v' @ dquote # post
        \<and> dquote \<notin> set v \<and> spelt ''cover'' u \<and> dquote \<notin> set v')"
proof -
  have len: "length ''cover'' = 5" by simp
  have "cover_in_quotes s \<longleftrightarrow>
      (\<exists>a r. s = a @ r \<and> dquote \<notin> set a
         \<and> (ci_prefix ''cover'' r \<and> after_first dquote (drop 5 r) \<noteq> None))"
    by (rule run_then) simp_all
  also have "\<dots> \<longleftrightarrow>
      (\<exists>a r. s = a @ r \<and> dquote \<notin> set a
         \<and> (\<exists>u t. r = u @ t \<and> spelt ''cover'' u \<and> after_first dquote t \<noteq> None))"
    using ci_prefix_then [of "''cover''" _ "\<lambda>t. after_first dquote t \<noteq> None"]
    unfolding len by simp
  also have "\<dots> \<longleftrightarrow>
      (\<exists>v u v' post. s = v @ u @ v' @ dquote # post
        \<and> dquote \<notin> set v \<and> spelt ''cover'' u \<and> dquote \<notin> set v')"
    unfolding after_first_found_iff by blast
  finally show ?thesis .
qed

lemma class_in_tag_iff:
  "class_in_tag s \<longleftrightarrow>
     (\<exists>a k v u v' post. s = a @ k @ v @ u @ v' @ dquote # post
        \<and> CHR ''>'' \<notin> set a \<and> spelt (''class='' @ [dquote]) k
        \<and> dquote \<notin> set v \<and> spelt ''cover'' u \<and> dquote \<notin> set v')"
proof -
  have len: "length (''class='' @ [dquote]) = 7" by simp
  have "class_in_tag s \<longleftrightarrow>
      (\<exists>a r. s = a @ r \<and> CHR ''>'' \<notin> set a
         \<and> (ci_prefix (''class='' @ [dquote]) r \<and> cover_in_quotes (drop 7 r)))"
    by (rule run_then) simp_all
  also have "\<dots> \<longleftrightarrow>
      (\<exists>a r. s = a @ r \<and> CHR ''>'' \<notin> set a
         \<and> (\<exists>k t. r = k @ t \<and> spelt (''class='' @ [dquote]) k \<and> cover_in_quotes t))"
    using ci_prefix_then [of "''class='' @ [dquote]" _ cover_in_quotes]
    unfolding len by simp
  also have "\<dots> \<longleftrightarrow>
      (\<exists>a k v u v' post. s = a @ k @ v @ u @ v' @ dquote # post
        \<and> CHR ''>'' \<notin> set a \<and> spelt (''class='' @ [dquote]) k
        \<and> dquote \<notin> set v \<and> spelt ''cover'' u \<and> dquote \<notin> set v')"
    unfolding cover_in_quotes_iff by blast
  finally show ?thesis .
qed

lemma body_class_at_iff:
  "body_class_at s \<noteq> None \<longleftrightarrow>
     (\<exists>w a k v u v' post. s = w @ a @ k @ v @ u @ v' @ dquote # post
        \<and> spelt ''<body'' w \<and> CHR ''>'' \<notin> set a \<and> spelt (''class='' @ [dquote]) k
        \<and> dquote \<notin> set v \<and> spelt ''cover'' u \<and> dquote \<notin> set v')"
proof -
  have len: "length ''<body'' = 5" by simp
  have "body_class_at s \<noteq> None \<longleftrightarrow> ci_prefix ''<body'' s \<and> class_in_tag (drop 5 s)"
    by (simp add: body_class_at_def)
  also have "\<dots> \<longleftrightarrow> (\<exists>w t. s = w @ t \<and> spelt ''<body'' w \<and> class_in_tag t)"
    using ci_prefix_then [of "''<body''" s class_in_tag] unfolding len .
  also have "\<dots> \<longleftrightarrow>
     (\<exists>w a k v u v' post. s = w @ a @ k @ v @ u @ v' @ dquote # post
        \<and> spelt ''<body'' w \<and> CHR ''>'' \<notin> set a \<and> spelt (''class='' @ [dquote]) k
        \<and> dquote \<notin> set v \<and> spelt ''cover'' u \<and> dquote \<notin> set v')"
    unfolding class_in_tag_iff by blast
  finally show ?thesis .
qed

lemma search_body_class_iff: "search_body_class content \<longleftrightarrow> body_class_cover content"
proof
  assume "search_body_class content"
  then obtain n where "body_class_at (drop n content) \<noteq> None"
    unfolding search_body_class_def re_search_found_iff by auto
  then obtain w a k v u v' post where h:
      "drop n content = w @ a @ k @ v @ u @ v' @ dquote # post"
      "spelt ''<body'' w" "CHR ''>'' \<notin> set a" "spelt (''class='' @ [dquote]) k"
      "dquote \<notin> set v" "spelt ''cover'' u" "dquote \<notin> set v'"
    unfolding body_class_at_iff by blast
  have "content = take n content @ w @ a @ k @ v @ u @ v' @ dquote # post"
    using h(1) by (metis append_take_drop_id)
  then show "body_class_cover content"
    unfolding body_class_cover_def using h(2-7) by blast
next
  assume "body_class_cover content"
  then obtain pre w a k v u v' post where h:
      "content = pre @ w @ a @ k @ v @ u @ v' @ dquote # post"
      "spelt ''<body'' w" "CHR ''>'' \<notin> set a" "spelt (''class='' @ [dquote]) k"
      "dquote \<notin> set v" "spelt ''cover'' u" "dquote \<notin> set v'"
    unfolding body_class_cover_def by blast
  have "drop (length pre) content = w @ a @ k @ v @ u @ v' @ dquote # post"
    using h(1) by simp
  then have "body_class_at (drop (length pre) content) \<noteq> None"
    unfolding body_class_at_iff using h(2-7) by blast
  moreover have "length pre \<le> length content" using h(1) by simp
  ultimately show "search_body_class content"
    unfolding search_body_class_def re_search_found_iff by blast
qed


lemma until_body_close_iff:
  "until_body_close r = Some (g, rest) \<longleftrightarrow>
     (\<exists>k. r = g @ k @ rest \<and> spelt ''</body>'' k
        \<and> (\<forall>g' k' post'. r = g' @ k' @ post' \<and> spelt ''</body>'' k'
              \<longrightarrow> length g \<le> length g'))"
proof (induction r arbitrary: g)
  case Nil
  have "\<not> spelt ''</body>'' []"
    by (simp add: spelt_def py_lower_def)
  then show ?case by auto
next
  case (Cons c cs)
  have len: "length ''</body>'' = 7" by simp
  show ?case
  proof (cases "ci_prefix ''</body>'' (c # cs)")
    case True
    then have sp: "spelt ''</body>'' (take 7 (c # cs))"
      unfolding ci_prefix_take len by simp
    have split: "c # cs = [] @ take 7 (c # cs) @ drop 7 (c # cs)"
      by simp
    have lhs: "until_body_close (c # cs) = Some (g, rest) \<longleftrightarrow> g = [] \<and> rest = drop 7 (c # cs)"
      using True by auto
    show ?thesis
    proof
      assume "until_body_close (c # cs) = Some (g, rest)"
      then have "g = []" "rest = drop 7 (c # cs)" unfolding lhs by auto
      then show "\<exists>k. c # cs = g @ k @ rest \<and> spelt ''</body>'' k
          \<and> (\<forall>g' k' post'. c # cs = g' @ k' @ post' \<and> spelt ''</body>'' k'
                \<longrightarrow> length g \<le> length g')"
        using sp split by (intro exI [of _ "take 7 (c # cs)"]) simp
    next
      assume "\<exists>k. c # cs = g @ k @ rest \<and> spelt ''</body>'' k
          \<and> (\<forall>g' k' post'. c # cs = g' @ k' @ post' \<and> spelt ''</body>'' k'
                \<longrightarrow> length g \<le> length g')"
      then obtain k where k: "c # cs = g @ k @ rest" "spelt ''</body>'' k"
          and least: "\<And>g' k' post'. c # cs = g' @ k' @ post' \<Longrightarrow> spelt ''</body>'' k'
                \<Longrightarrow> length g \<le> length g'"
        by blast
      have "length g \<le> length ([] :: string)"
        using split sp by (rule least)
      then have g: "g = []" by simp
      have "length k = 7" using spelt_length [OF k(2)] by simp
      then have "rest = drop 7 (c # cs)"
        using k(1) g by simp
      then show "until_body_close (c # cs) = Some (g, rest)"
        unfolding lhs using g by simp
    qed
  next
    case False
    have no: "\<not> spelt ''</body>'' k" if "c # cs = k @ post" for k post
      using False that unfolding ci_prefix_iff by blast
    have lhs: "until_body_close (c # cs) = Some (g, rest)
        \<longleftrightarrow> (\<exists>g0. g = c # g0 \<and> until_body_close cs = Some (g0, rest))"
      using False by auto
    show ?thesis
    proof
      assume "until_body_close (c # cs) = Some (g, rest)"
      then obtain g0 where g: "g = c # g0" and u: "until_body_close cs = Some (g0, rest)"
        unfolding lhs by auto
      obtain k where k: "cs = g0 @ k @ rest" "spelt ''</body>'' k"
          and least: "\<And>g' k' post'. cs = g' @ k' @ post' \<Longrightarrow> spelt ''</body>'' k'
                \<Longrightarrow> length g0 \<le> length g'"
        using u unfolding Cons.IH by blast
      have "length g \<le> length g'" if h: "c # cs = g' @ k' @ post'" "spelt ''</body>'' k'"
        for g' k' post'
      proof (cases g')
        case Nil
        then show ?thesis using no [of k' post'] h by simp
      next
        case (Cons d g'')
        then have "cs = g'' @ k' @ post'" using h(1) by simp
        then have "length g0 \<le> length g''" using h(2) by (rule least)
        then show ?thesis using g Cons by simp
      qed
      then show "\<exists>k. c # cs = g @ k @ rest \<and> spelt ''</body>'' k
          \<and> (\<forall>g' k' post'. c # cs = g' @ k' @ post' \<and> spelt ''</body>'' k'
                \<longrightarrow> length g \<le> length g')"
        using k g by (intro exI [of _ k]) simp
    next
      assume "\<exists>k. c # cs = g @ k @ rest \<and> spelt ''</body>'' k
          \<and> (\<forall>g' k' post'. c # cs = g' @ k' @ post' \<and> spelt ''</body>'' k'
                \<longrightarrow> length g \<le> length g')"
      then obtain k where k: "c # cs = g @ k @ rest" "spelt ''</body>'' k"
          and least: "\<And>g' k' post'. c # cs = g' @ k' @ post' \<Longrightarrow> spelt ''</body>'' k'
                \<Longrightarrow> length g \<le> length g'"
        by blast
      obtain g0 where g: "g = c # g0"
      proof (cases g)
        case Nil
        then show ?thesis using no [of k rest] k by simp
      next
        case (Cons d g0)
        then show ?thesis using k(1) that by simp
      qed
      have cs: "cs = g0 @ k @ rest" using k(1) g by simp
      have "length g0 \<le> length g'" if h: "cs = g' @ k' @ post'" "spelt ''</body>'' k'"
        for g' k' post'
      proof -
        have "c # cs = (c # g') @ k' @ post'" using h(1) by simp
        then have "length g \<le> length (c # g')" using h(2) by (rule least)
        then show ?thesis using g by simp
      qed
      then have "until_body_close cs = Some (g0, rest)"
        unfolding Cons.IH using cs k(2) by blast
      then show "until_body_close (c # cs) = Some (g, rest)"
        unfolding lhs using g by simp
    qed
  qed
qed

lemma body_at_iff:
  "body_at s = Some (g, rest) \<longleftrightarrow>
     (\<exists>w a k. s = w @ a @ CHR ''>'' # g @ k @ rest
        \<and> spelt ''<body'' w \<and> CHR ''>'' \<notin> set a \<and> spelt ''</body>'' k
        \<and> (\<forall>g' k' post'. g @ k @ rest = g' @ k' @ post' \<and> spelt ''</body>'' k'
              \<longrightarrow> length g \<le> length g'))"
proof
  have len: "length ''<body'' = 5" by simp
  assume a: "body_at s = Some (g, rest)"
  then have ci: "ci_prefix ''<body'' s"
    unfolding body_at_def by (auto split: if_splits)
  then have w: "spelt ''<body'' (take 5 s)"
    unfolding ci_prefix_take len by simp
  obtain r where r: "after_first (CHR ''>'') (drop 5 s) = Some r"
      and u: "until_body_close r = Some (g, rest)"
    using a ci unfolding body_at_def by (auto split: option.splits)
  obtain x where x: "CHR ''>'' \<notin> set x" "drop 5 s = x @ CHR ''>'' # r"
    using after_first_split [OF r] by auto
  obtain k where k: "r = g @ k @ rest" "spelt ''</body>'' k"
      "\<forall>g' k' post'. r = g' @ k' @ post' \<and> spelt ''</body>'' k' \<longrightarrow> length g \<le> length g'"
    using u unfolding until_body_close_iff by blast
  have "s = take 5 s @ x @ CHR ''>'' # g @ k @ rest"
    using x(2) k(1) by (metis append_take_drop_id)
  then show "\<exists>w a k. s = w @ a @ CHR ''>'' # g @ k @ rest
        \<and> spelt ''<body'' w \<and> CHR ''>'' \<notin> set a \<and> spelt ''</body>'' k
        \<and> (\<forall>g' k' post'. g @ k @ rest = g' @ k' @ post' \<and> spelt ''</body>'' k'
              \<longrightarrow> length g \<le> length g')"
    using w x(1) k(2,3) unfolding k(1) by blast
next
  assume "\<exists>w a k. s = w @ a @ CHR ''>'' # g @ k @ rest
        \<and> spelt ''<body'' w \<and> CHR ''>'' \<notin> set a \<and> spelt ''</body>'' k
        \<and> (\<forall>g' k' post'. g @ k @ rest = g' @ k' @ post' \<and> spelt ''</body>'' k'
              \<longrightarrow> length g \<le> length g')"
  then obtain w a k where h: "s = w @ a @ CHR ''>'' # g @ k @ rest"
      "spelt ''<body'' w" "CHR ''>'' \<notin> set a" "spelt ''</body>'' k"
      "\<forall>g' k' post'. g @ k @ rest = g' @ k' @ post' \<and> spelt ''</body>'' k'
              \<longrightarrow> length g \<le> length g'"
    by blast
  have ci: "ci_prefix ''<body'' s"
    unfolding ci_prefix_iff using h(1,2) by blast
  have "length w = 5" using spelt_length [OF h(2)] by simp
  then have "drop 5 s = a @ CHR ''>'' # g @ k @ rest"
    using h(1) by simp
  then have "after_first (CHR ''>'') (drop 5 s) = Some (g @ k @ rest)"
    using h(3) by (simp add: after_first_append)
  moreover have "until_body_close (g @ k @ rest) = Some (g, rest)"
    unfolding until_body_close_iff using h(4,5) by blast
  ultimately show "body_at s = Some (g, rest)"
    using ci unfolding body_at_def by simp
qed

lemma body_element_at_iff:
  "body_element_at content n g
     \<longleftrightarrow> n \<le> length content \<and> (\<exists>rest. body_at (drop n content) = Some (g, rest))"
proof
  assume "body_element_at content n g"
  then obtain pre w a k post where h: "content = pre @ w @ a @ CHR ''>'' # g @ k @ post"
      "length pre = n" "spelt ''<body'' w" "CHR ''>'' \<notin> set a" "spelt ''</body>'' k"
      "\<forall>g' k' post'. g @ k @ post = g' @ k' @ post' \<and> spelt ''</body>'' k'
              \<longrightarrow> length g \<le> length g'"
    unfolding body_element_at_def by blast
  have "drop n content = w @ a @ CHR ''>'' # g @ k @ post"
    using h(1,2) by auto
  then have "body_at (drop n content) = Some (g, post)"
    unfolding body_at_iff using h(3-6) by blast
  moreover have "n \<le> length content" using h(1,2) by auto
  ultimately show "n \<le> length content \<and> (\<exists>rest. body_at (drop n content) = Some (g, rest))"
    by blast
next
  assume "n \<le> length content \<and> (\<exists>rest. body_at (drop n content) = Some (g, rest))"
  then obtain rest where n: "n \<le> length content" and b: "body_at (drop n content) = Some (g, rest)"
    by blast
  obtain w a k where h: "drop n content = w @ a @ CHR ''>'' # g @ k @ rest"
      "spelt ''<body'' w" "CHR ''>'' \<notin> set a" "spelt ''</body>'' k"
      "\<forall>g' k' post'. g @ k @ rest = g' @ k' @ post' \<and> spelt ''</body>'' k'
              \<longrightarrow> length g \<le> length g'"
    using b unfolding body_at_iff by blast
  have "content = take n content @ w @ a @ CHR ''>'' # g @ k @ rest"
    using h(1) by (metis append_take_drop_id)
  moreover have "length (take n content) = n" using n by simp
  ultimately show "body_element_at content n g"
    unfolding body_element_at_def using h(2-5) by blast
qed

lemma search_body_iff: "search_body content = Some g \<longleftrightarrow> first_body content g"
proof
  assume "search_body content = Some g"
  then obtain rest where "re_search body_at content = Some (g, rest)"
    unfolding search_body_def by auto
  then obtain n where n: "n \<le> length content" "body_at (drop n content) = Some (g, rest)"
      "\<forall>k < n. body_at (drop k content) = None"
    unfolding re_search_Some_iff by blast
  have "body_element_at content n g"
    unfolding body_element_at_iff using n(1,2) by blast
  moreover have "n \<le> m" if "body_element_at content m g'" for m g'
  proof (rule ccontr)
    assume "\<not> n \<le> m"
    then have "body_at (drop m content) = None" using n(3) by simp
    then show False using that unfolding body_element_at_iff by simp
  qed
  ultimately show "first_body content g"
    unfolding first_body_def by blast
next
  assume "first_body content g"
  then obtain n where n: "body_element_at content n g"
      and least: "\<And>m g'. body_element_at content m g' \<Longrightarrow> n \<le> m"
    unfolding first_body_def by blast
  obtain rest where r: "n \<le> length content" "body_at (drop n content) = Some (g, rest)"
    using n unfolding body_element_at_iff by blast
  have "body_at (drop k content) = None" if "k < n" for k
  proof (rule ccontr)
    assume "body_at (drop k content) \<noteq> None"
    then obtain g' rest' where "body_at (drop k content) = Some (g', rest')" by auto
    moreover have "k \<le> length content" using that r(1) by simp
    ultimately have "body_element_at content k g'"
      unfolding body_element_at_iff by blast
    then have "n \<le> k" by (rule least)
    then show False using that by simp
  qed
  then have "re_search body_at content = Some (g, rest)"
    unfolding re_search_Some_iff using r by blast
  then show "search_body content = Some g"
    unfolding search_body_def by simp
qed

lemma cover_checks_iff:
  "cover_checks content \<longleftrightarrow> image_wrapper content \<or> body_class_cover content"
proof -
  have "image_wrapper content \<longleftrightarrow>
      (\<exists>g. search_body content = Some g \<and> search_img (py_strip g)
           \<and> length (py_strip (strip_tags (py_strip g))) < 100)"
    unfolding image_wrapper_def search_body_iff search_img_iff trimmed_iff without_tags_iff
    by blast
  then show ?thesis
    unfolding search_body_class_iff [symmetric]
    by (cases "search_body content") (simp_all add: cover_checks_def Let_def)
qed

section \<open>The example book, evaluated\<close>

lemma book_files: "\<forall>it \<in> set book_spine. book_disk (full_path it) \<noteq> Some Dir"
  by code_simp

lemma book_existing:
  "length (filter (\<lambda>it. path_exists book_disk (full_path it)) book_spine) = 5"
  by code_simp

lemma book_covers:
  "map (\<lambda>it. is_cover_page book_disk (full_path it) it) book_spine
     = [True, False, True, False, False, False]"
  by code_simp

lemma book_has_cover:
  "\<exists>it \<in> set book_spine. path_exists book_disk (full_path it)
      \<and> is_cover_page book_disk (full_path it) it"
  by code_simp


lemma book_flattened_css:
  "map_sum id stylesheets (flatten (\<lambda>p. p) book_disk book_spine True)
     = Inr [''/b/css/base.css'', ''/b/css/style.css'']"
  by code_simp

lemma book_css_hrefs:
  "css_hrefs ch1_xhtml = [''css/style.css'']"
  "css_hrefs ch2_xhtml = [''css/style.css'', ''css/base.css'']"
  "css_hrefs ch3_xhtml = [''css/style.css'', ''css/gone.css'']"
  by code_simp+

lemma cover_flagged:
  "is_cover_page book_disk ''/b/cover.xhtml'' (mk_item ''cover.xhtml'' ''/b/cover.xhtml'')"
  by code_simp

lemma cover_text: "book_disk ''/b/cover.xhtml'' = Some (File cover_xhtml)"
  by (simp add: book_disk_def)

lemma cover_no_class: "\<not> search_body_class cover_xhtml"
  by code_simp

lemma ch1_name:
  "\<not> occurs ''cover'' (basename (py_lower (href (mk_item ''ch1.xhtml'' ''/b/ch1.xhtml''))))"
  by code_simp

lemma dir_node: "dir_disk ''/b/cover.xhtml'' = Some Dir"
  by (simp add: dir_disk_def)

lemma bare_image_not_flagged:
  "\<not> is_cover_page (one_page bare_image_page) ''/b/cover.xhtml''
       (mk_item ''cover.xhtml'' ''/b/cover.xhtml'')"
  by code_simp

lemma single_quoted_class_not_flagged:
  "\<not> is_cover_page (one_page single_quoted_class_page) ''/b/cover.xhtml''
       (mk_item ''cover.xhtml'' ''/b/cover.xhtml'')"
  by code_simp

lemma data_class_flagged:
  "is_cover_page (one_page data_class_page) ''/b/cover.xhtml''
     (mk_item ''cover.xhtml'' ''/b/cover.xhtml'')"
  by code_simp

lemma capitals_flagged:
  "is_cover_page (one_page capitals_page) ''/b/cover.xhtml''
     (mk_item ''OEBPS/Cover.XHTML'' ''/b/cover.xhtml'')"
  by code_simp

lemma capitals_text: "one_page capitals_page ''/b/cover.xhtml'' = Some (File capitals_page)"
  by (simp add: one_page_def)

lemma capitals_no_class: "\<not> search_body_class capitals_page"
  by code_simp

lemma page_texts:
  "occurs ''<img/>'' bare_image_page"
  "length bare_image_page < 100"
  "occurs ''<body class='cover'>'' single_quoted_class_page"
  "\<not> occurs ''<img'' (py_lower data_class_page)"
  "\<not> occurs '' class='' (py_lower data_class_page)"
  by code_simp+

lemma short_spine_ids:
  "map_sum id (\<lambda>doc. map anchor_id (blocks doc)) (flatten (\<lambda>p. p) book_disk short_spine False)
     = Inr [''cover'', ''ch1'', ''ch2'']"
  by code_simp

lemma short_spine_survivors:
  "(2, mk_item ''ch2.xhtml'' ''/b/ch2.xhtml'') \<in> set (surviving book_disk False (enumerate 0 short_spine))"
  by code_simp

lemma ch2_stem:
  "basename (href (snd (2 :: nat, mk_item ''ch2.xhtml'' ''/b/ch2.xhtml''))) = ''ch2'' @ ''.xhtml''"
  "\<not> occurs ''.xhtml'' ''ch2''" "\<not> occurs ''.html'' ''ch2''"
  "\<not> occurs (''href='' @ [dquote]) ''<p>One <a ''"
  by code_simp+

lemma link_rest_unchanged: "rewrite_links ''>two</a></p>'' = ''>two</a></p>''"
  by code_simp


section \<open>Anchor ids of the chapter containers\<close>

text \<open>
  C1, as stated, fails: the anchor id is made from the file name alone, so two chapters
  with the same file name in two directories get the same id; and the second chapter's
  link to \<open>a/ch1.xhtml\<close> is rewritten to \<open>#a/ch1\<close>, which is the id of no container.
\<close>

theorem duplicate_anchor_ids_counterexample:
  "map_sum id blocks (flatten (\<lambda>p. p) twin_disk twin_spine False) = Inr twin_blocks
   \<and> map anchor_id twin_blocks = [''ch1'', ''ch1'']
   \<and> \<not> distinct (map anchor_id twin_blocks)"
  by code_simp


text \<open>
  C1, amended. The ids of the per-chapter containers of a flattened document are, in
  order, the anchor ids of the surviving spine items: the file name of the item's
  \<open>href\<close> with every \<open>.xhtml\<close> and then every \<open>.html\<close> removed. They are pairwise
  unique whenever those anchor ids are pairwise distinct. For a surviving chapter whose
  file name is \<open>stem.xhtml\<close>, where \<open>stem\<close> is free of double quotes and \<open>#\<close> and
  contains neither \<open>.xhtml\<close> nor \<open>.html\<close>, a double-quoted link whose target is that
  file name, alone or followed by a fragment, is rewritten to \<open>#stem\<close>, which is the
  id of that chapter's container. (Nothing is said here of a link whose target has a
  directory part.)
\<close>

theorem anchor_ids_and_links:
  assumes "flatten np disk spine sc = Inr doc"
  shows "map anchor_id (blocks doc)
      = map (\<lambda>e. item_anchor_id (snd e)) (surviving disk sc (enumerate 0 spine))
    \<and> (distinct (map (\<lambda>e. item_anchor_id (snd e)) (surviving disk sc (enumerate 0 spine)))
         \<longrightarrow> distinct (map anchor_id (blocks doc)))
    \<and> (e \<in> set (surviving disk sc (enumerate 0 spine))
        \<and> basename (href (snd e)) = stem @ ''.xhtml'' \<and> stem \<noteq> []
        \<and> dquote \<notin> set stem \<and> CHR ''#'' \<notin> set stem
        \<and> \<not> occurs ''.xhtml'' stem \<and> \<not> occurs ''.html'' stem
        \<and> \<not> occurs (''href='' @ [dquote]) pre \<and> dquote \<notin> set frag \<longrightarrow>
          survivor_block disk e \<in> set (blocks doc)
          \<and> anchor_id (survivor_block disk e) = stem
          \<and> rewrite_links (pre @ ''href='' @ dquote # stem @ ''.xhtml'' @ dquote # rest)
              = pre @ ''href='' @ dquote # ''#'' @ anchor_id (survivor_block disk e)
                  @ dquote # rewrite_links rest
          \<and> rewrite_links (pre @ ''href='' @ dquote # stem @ ''.xhtml'' @ CHR ''#'' # frag @ dquote # rest)
              = pre @ ''href='' @ dquote # ''#'' @ anchor_id (survivor_block disk e)
                  @ dquote # rewrite_links rest)"
proof (intro conjI impI)
  have b: "blocks doc = map (survivor_block disk) (surviving disk sc (enumerate 0 spine))"
    using flatten_survivors(1) [OF assms] .
  show ids: "map anchor_id (blocks doc)
      = map (\<lambda>e. item_anchor_id (snd e)) (surviving disk sc (enumerate 0 spine))"
    unfolding b by (simp add: survivor_anchor_id comp_def)
  {
    assume "distinct (map (\<lambda>e. item_anchor_id (snd e)) (surviving disk sc (enumerate 0 spine)))"
    then show "distinct (map anchor_id (blocks doc))"
      unfolding ids .
  }
  assume h: "e \<in> set (surviving disk sc (enumerate 0 spine))
        \<and> basename (href (snd e)) = stem @ ''.xhtml'' \<and> stem \<noteq> []
        \<and> dquote \<notin> set stem \<and> CHR ''#'' \<notin> set stem
        \<and> \<not> occurs ''.xhtml'' stem \<and> \<not> occurs ''.html'' stem
        \<and> \<not> occurs (''href='' @ [dquote]) pre \<and> dquote \<notin> set frag"
  show "survivor_block disk e \<in> set (blocks doc)"
    unfolding b using h by simp
  show id: "anchor_id (survivor_block disk e) = stem"
    using h by (simp add: survivor_anchor_id stem_anchor_id)
  have r: "py_replace ''.xhtml'' [] (stem @ ''.xhtml'') = stem"
    using h by (simp add: py_replace_def replace_xhtml_suffix del: replace_from.simps)
  have "link_tail ([dquote] @ rest) = Some rest"
    by (simp add: link_tail_quote)
  from rewrite_links_target [OF _ _ _ _ this, of pre stem]
  show "rewrite_links (pre @ ''href='' @ dquote # stem @ ''.xhtml'' @ dquote # rest)
              = pre @ ''href='' @ dquote # ''#'' @ anchor_id (survivor_block disk e)
                  @ dquote # rewrite_links rest"
    using h by (simp add: id r del: replace_from.simps)
  have "link_tail ((CHR ''#'' # frag @ [dquote]) @ rest) = Some rest"
    using h by (simp add: link_tail_fragment)
  from rewrite_links_target [OF _ _ _ _ this, of pre stem]
  show "rewrite_links (pre @ ''href='' @ dquote # stem @ ''.xhtml'' @ CHR ''#'' # frag @ dquote # rest)
              = pre @ ''href='' @ dquote # ''#'' @ anchor_id (survivor_block disk e)
                  @ dquote # rewrite_links rest"
    using h by (simp add: id r del: replace_from.simps)
qed


theorem anchor_ids_and_links_witness:
  "\<exists>doc. flatten (\<lambda>p. p) book_disk short_spine False = Inr doc
     \<and> map anchor_id (blocks doc) = [''cover'', ''ch1'', ''ch2'']
     \<and> distinct (map anchor_id (blocks doc))
     \<and> (2, mk_item ''ch2.xhtml'' ''/b/ch2.xhtml'') \<in> set (surviving book_disk False (enumerate 0 short_spine))
     \<and> anchor_id (survivor_block book_disk (2, mk_item ''ch2.xhtml'' ''/b/ch2.xhtml'')) = ''ch2''
     \<and> rewrite_links (''<p>One <a href='' @ dquote # ''ch2.xhtml#s'' @ dquote # ''>two</a></p>'')
         = ''<p>One <a href='' @ dquote # ''#ch2'' @ dquote # ''>two</a></p>''"
proof -
  obtain doc where doc: "flatten (\<lambda>p. p) book_disk short_spine False = Inr doc"
    and ids: "map anchor_id (blocks doc) = [''cover'', ''ch1'', ''ch2'']"
    using short_spine_ids by (cases "flatten (\<lambda>p. p) book_disk short_spine False") auto
  have hyp: "(2, mk_item ''ch2.xhtml'' ''/b/ch2.xhtml'') \<in> set (surviving book_disk False (enumerate 0 short_spine))
        \<and> basename (href (snd (2 :: nat, mk_item ''ch2.xhtml'' ''/b/ch2.xhtml''))) = ''ch2'' @ ''.xhtml''
        \<and> ''ch2'' \<noteq> []
        \<and> dquote \<notin> set ''ch2'' \<and> CHR ''#'' \<notin> set ''ch2''
        \<and> \<not> occurs ''.xhtml'' ''ch2'' \<and> \<not> occurs ''.html'' ''ch2''
        \<and> \<not> occurs (''href='' @ [dquote]) ''<p>One <a '' \<and> dquote \<notin> set ''s''"
    using short_spine_survivors ch2_stem by simp
  from anchor_ids_and_links [OF doc, of "(2, mk_item ''ch2.xhtml'' ''/b/ch2.xhtml'')" "''ch2''"
      "''<p>One <a ''" "''s''" "''>two</a></p>''"] hyp
  have a: "anchor_id (survivor_block book_disk (2, mk_item ''ch2.xhtml'' ''/b/ch2.xhtml'')) = ''ch2''"
    and l: "rewrite_links (''<p>One <a '' @ ''href='' @ dquote # ''ch2'' @ ''.xhtml'' @ CHR ''#'' # ''s'' @ dquote # ''>two</a></p>'')
              = ''<p>One <a '' @ ''href='' @ dquote # ''#''
                  @ anchor_id (survivor_block book_disk (2, mk_item ''ch2.xhtml'' ''/b/ch2.xhtml''))
                  @ dquote # rewrite_links ''>two</a></p>''"
    by blast+
  show ?thesis
    using doc ids a l short_spine_survivors by (auto simp: link_rest_unchanged)
qed

section \<open>The link-rewriting rule\<close>

text \<open>
  C2 does not hold of the code: the pattern of the rewriting looks at the end of the
  target only, so a link to a page outside the book whose address ends in \<open>.xhtml\<close> is
  rewritten like a link to a chapter. In a book of two chapters \<open>ch1.xhtml\<close> and
  \<open>ch2.xhtml\<close>, the first chapter's link to \<open>ch2.xhtml#s\<close> becomes \<open>#ch2\<close>, the id of
  the second container, and its link to \<open>http://example.com/page.html\<close> is kept; but
  its links to \<open>http://example.com/page.xhtml\<close> and to \<open>mailto:x@y.xhtml\<close> become
  \<open>#http://example.com/page\<close> and \<open>#mailto:x@y\<close>, which are the ids of no container of
  the document.
\<close>

theorem external_xhtml_link_rewritten:
  "block_bodies (flatten (\<lambda>p. p) links_disk links_spine False) = Inr links_bodies
   \<and> map fst links_bodies = [''ch1'', ''ch2'']
   \<and> rewrite_links (extract_body links_xhtml) \<noteq> extract_body links_xhtml
   \<and> ''http://example.com/page'' \<notin> set (map fst links_bodies)
   \<and> ''mailto:x@y'' \<notin> set (map fst links_bodies)"
  by code_simp

section \<open>The page-break class of the first surviving item\<close>

lemma short_spine_skip_classes:
  "block_classes (flatten (\<lambda>p. p) book_disk short_spine True)
     = Inr [(''ch1'', ''epub-chapter-break''), (''ch2'', ''epub-chapter-break'')]"
  by code_simp

lemma ghost_spine_classes:
  "block_classes (flatten (\<lambda>p. p) book_disk ghost_spine False)
     = Inr [(''ch1'', ''epub-chapter-break'')]"
  by code_simp

lemma short_spine_classes:
  "block_classes (flatten (\<lambda>p. p) book_disk short_spine False)
     = Inr [(''cover'', ''epub-chapter-first''), (''ch1'', ''epub-chapter-break''),
            (''ch2'', ''epub-chapter-break'')]"
  by code_simp

text \<open>
  C3 does not hold of the code: the class is chosen from the index of the item in the
  spine (\<open>i > 0\<close>), not from its position among the items that survive. When the cover
  wrapper at index 0 is elided, or when the file of the entry at index 0 is missing,
  the first surviving item is at index 1 and its container gets the class
  \<open>epub-chapter-break\<close>; no block of the document has the class \<open>epub-chapter-first\<close>.
  Only an item at index 0 that survives gets \<open>epub-chapter-first\<close>.
\<close>

theorem first_surviving_block_class:
  "block_classes (flatten (\<lambda>p. p) book_disk short_spine True)
     = Inr [(''ch1'', ''epub-chapter-break''), (''ch2'', ''epub-chapter-break'')]
   \<and> block_classes (flatten (\<lambda>p. p) book_disk ghost_spine False)
     = Inr [(''ch1'', ''epub-chapter-break'')]
   \<and> block_classes (flatten (\<lambda>p. p) book_disk short_spine False)
     = Inr [(''cover'', ''epub-chapter-first''), (''ch1'', ''epub-chapter-break''),
            (''ch2'', ''epub-chapter-break'')]"
  using short_spine_skip_classes ghost_spine_classes short_spine_classes by simp


section \<open>The number of content blocks\<close>

text \<open>
  C4: when the flattening returns a document, the number of its per-chapter blocks is
  the number of spine entries whose file exists, minus one exactly when cover skipping
  is on and some existing entry is flagged by the Cover-Page Detector; so at most one
  entry is elided, however many would be flagged. The flattening does return a document
  whenever no spine entry resolves to a directory.
\<close>

theorem flattened_block_count:
  "(flatten np disk spine sc = Inr doc \<longrightarrow>
      length (blocks doc)
        = length (filter (\<lambda>it. path_exists disk (full_path it)) spine)
          - (if sc \<and> (\<exists>it \<in> set spine. path_exists disk (full_path it)
                          \<and> is_cover_page disk (full_path it) it) then 1 else 0)
      \<and> length (filter (\<lambda>it. path_exists disk (full_path it)) spine) \<le> length (blocks doc) + 1)
   \<and> ((\<forall>it \<in> set spine. disk (full_path it) \<noteq> Some Dir) \<longrightarrow>
        (\<exists>doc'. flatten np disk spine sc = Inr doc'))"
proof (intro conjI impI)
  assume f: "flatten np disk spine sc = Inr doc"
  have "length (blocks doc) = length (surviving disk sc (enumerate 0 spine))"
    using flatten_survivors(1) [OF f] by simp
  moreover have "length (surviving disk sc (enumerate 0 spine))
     + (if sc \<and> (\<exists>it \<in> set spine. path_exists disk (full_path it)
                    \<and> is_cover_page disk (full_path it) it) then 1 else 0)
     = length (filter (\<lambda>it. path_exists disk (full_path it)) spine)"
    using surviving_count [of disk sc "enumerate 0 spine"]
      enumerate_filter_snd [of "\<lambda>it. path_exists disk (full_path it)" 0 spine]
      enumerate_bex_snd [of 0 spine
        "\<lambda>it. path_exists disk (full_path it) \<and> is_cover_page disk (full_path it) it"]
    by simp
  ultimately show "length (blocks doc)
        = length (filter (\<lambda>it. path_exists disk (full_path it)) spine)
          - (if sc \<and> (\<exists>it \<in> set spine. path_exists disk (full_path it)
                          \<and> is_cover_page disk (full_path it) it) then 1 else 0)"
    and "length (filter (\<lambda>it. path_exists disk (full_path it)) spine) \<le> length (blocks doc) + 1"
    by (auto split: if_splits)
next
  assume "\<forall>it \<in> set spine. disk (full_path it) \<noteq> Some Dir"
  then show "\<exists>doc'. flatten np disk spine sc = Inr doc'"
    by (rule flatten_total)
qed


theorem flattened_block_count_witness:
  "list_all (\<lambda>it. book_disk (full_path it) \<noteq> Some Dir) book_spine
   \<and> (\<exists>doc. flatten (\<lambda>p. p) book_disk book_spine True = Inr doc
          \<and> length (blocks doc) = 4
          \<and> length (filter (\<lambda>it. path_exists book_disk (full_path it)) book_spine) = 5
          \<and> length (filter (\<lambda>it. is_cover_page book_disk (full_path it) it) book_spine) = 2)"
proof -
  from flattened_block_count [of "\<lambda>p. p" book_disk book_spine True] book_files
  obtain doc where doc: "flatten (\<lambda>p. p) book_disk book_spine True = Inr doc"
    by blast
  have two: "length (filter (\<lambda>it. is_cover_page book_disk (full_path it) it) book_spine) = 2"
    by code_simp
  from flattened_block_count [of "\<lambda>p. p" book_disk book_spine True doc] doc
  have "length (blocks doc) = 4"
    using book_existing book_has_cover by simp
  then show ?thesis
    using doc book_files book_existing two unfolding list_all_iff by blast
qed

section \<open>The decision of the Cover-Page Detector\<close>

text \<open>
  C5, as stated, fails: the detector looks for patterns in the text of the page, and
  these are not the tags and attributes of the claim. For an item named
  \<open>cover.xhtml\<close>:
  \<^item> a body that is the image tag \<open><img/>\<close> and nothing else is not flagged, because
    the detector wants a whitespace character after \<open><img\<close>;
  \<^item> a body tag with \<open>class='cover'\<close> in single quotes is not flagged, because the
    detector wants the value in double quotes;
  \<^item> a body tag with \<open>data-class="recover"\<close>, which has no class attribute, on a page
    with no image is flagged, because the detector accepts \<open>class="\<close> anywhere in
    the tag.
\<close>

theorem cover_rule_as_worded_counterexample:
  "occurs ''<img/>'' bare_image_page \<and> length bare_image_page < 100
   \<and> \<not> is_cover_page (one_page bare_image_page) ''/b/cover.xhtml''
         (mk_item ''cover.xhtml'' ''/b/cover.xhtml'')
   \<and> occurs ''<body class='cover'>'' single_quoted_class_page
   \<and> \<not> is_cover_page (one_page single_quoted_class_page) ''/b/cover.xhtml''
         (mk_item ''cover.xhtml'' ''/b/cover.xhtml'')
   \<and> \<not> occurs ''<img'' (py_lower data_class_page)
   \<and> \<not> occurs '' class='' (py_lower data_class_page)
   \<and> is_cover_page (one_page data_class_page) ''/b/cover.xhtml''
         (mk_item ''cover.xhtml'' ''/b/cover.xhtml'')"
  using bare_image_not_flagged single_quoted_class_not_flagged data_class_flagged page_texts
  by simp


text \<open>
  C5, amended. For a page whose text has code points below 256, \<open>is_cover_page\<close>
  flags an item exactly when the file name of its \<open>href\<close> contains \<open>cover\<close> in any
  case, the path is a regular file, and the text of the file meets one of two
  conditions.
  \<^item> Its first body element (\<open><body\<close>, characters other than \<open>>\<close>, a \<open>>\<close>, and the
    shortest text up to \<open></body>\<close>, in any case), once trimmed of whitespace, contains
    \<open><img\<close> in any case followed by a whitespace character, and fewer than 100
    characters are left of it when every tag (a \<open><\<close>, one or more characters other
    than \<open>>\<close>, and a \<open>>\<close>) is left out and the rest is trimmed.
  \<^item> It contains \<open><body\<close>, then, with no \<open>>\<close> in between, \<open>class="\<close>, and then a value
    closed by a double quote and containing \<open>cover\<close>; all in any case.
  An item whose file name does not contain \<open>cover\<close> is never flagged. A path that
  cannot be read as a file (it is missing or a directory) gives \<open>False\<close>, not an
  error: the function returns a plain boolean and has no failing outcome.
\<close>

theorem cover_page_rule:
  "(is_cover_page disk html_path it \<longleftrightarrow>
      named_cover it
      \<and> (\<exists>content. disk html_path = Some (File content)
           \<and> (image_wrapper content \<or> body_class_cover content)))
   \<and> (\<not> named_cover it \<longrightarrow> \<not> is_cover_page disk html_path it)
   \<and> ((\<forall>content. disk html_path \<noteq> Some (File content))
        \<longrightarrow> \<not> is_cover_page disk html_path it)"
proof -
  have main: "is_cover_page disk html_path it \<longleftrightarrow>
      named_cover it
      \<and> (\<exists>content. disk html_path = Some (File content) \<and> cover_checks content)"
    unfolding named_cover_iff [symmetric]
    by (auto simp: is_cover_page_def Let_def read_text_def split: option.splits node.splits)
  show ?thesis
    unfolding main cover_checks_iff by blast
qed


theorem cover_page_rule_witness:
  "is_cover_page book_disk ''/b/cover.xhtml'' (mk_item ''cover.xhtml'' ''/b/cover.xhtml'')
   \<and> named_cover (mk_item ''cover.xhtml'' ''/b/cover.xhtml'')
   \<and> book_disk ''/b/cover.xhtml'' = Some (File cover_xhtml)
   \<and> image_wrapper cover_xhtml
   \<and> \<not> body_class_cover cover_xhtml
   \<and> is_cover_page (one_page capitals_page) ''/b/cover.xhtml''
       (mk_item ''OEBPS/Cover.XHTML'' ''/b/cover.xhtml'')
   \<and> named_cover (mk_item ''OEBPS/Cover.XHTML'' ''/b/cover.xhtml'')
   \<and> image_wrapper capitals_page
   \<and> \<not> named_cover (mk_item ''ch1.xhtml'' ''/b/ch1.xhtml'')
   \<and> \<not> is_cover_page book_disk ''/b/ch1.xhtml'' (mk_item ''ch1.xhtml'' ''/b/ch1.xhtml'')
   \<and> dir_disk ''/b/cover.xhtml'' = Some Dir
   \<and> \<not> is_cover_page dir_disk ''/b/cover.xhtml'' (mk_item ''cover.xhtml'' ''/b/cover.xhtml'')"
proof -
  have a: "\<not> body_class_cover cover_xhtml"
    using cover_no_class unfolding search_body_class_iff .
  have b: "\<not> named_cover (mk_item ''ch1.xhtml'' ''/b/ch1.xhtml'')"
    using ch1_name unfolding named_cover_iff .
  have c: "\<not> body_class_cover capitals_page"
    using capitals_no_class unfolding search_body_class_iff .
  show ?thesis
    using cover_page_rule [of book_disk "''/b/cover.xhtml''" "mk_item ''cover.xhtml'' ''/b/cover.xhtml''"]
      cover_page_rule [of "one_page capitals_page" "''/b/cover.xhtml''"
        "mk_item ''OEBPS/Cover.XHTML'' ''/b/cover.xhtml''"]
      capitals_flagged capitals_text c
      cover_page_rule [of book_disk "''/b/ch1.xhtml''" "mk_item ''ch1.xhtml'' ''/b/ch1.xhtml''"]
      cover_page_rule [of dir_disk "''/b/cover.xhtml''" "mk_item ''cover.xhtml'' ''/b/cover.xhtml''"]
      cover_flagged cover_text dir_node a b
    by auto
qed

section \<open>Metadata: which occurrence is kept\<close>

lemma store_each_snoc:
  "store_each key (es @ [e]) m = (store_each key es m)(key \<mapsto> elem_text e)"
  by (simp add: store_each_def)

lemma store_each_other:
  "k \<noteq> key \<Longrightarrow> store_each key es m k = m k"
  by (induction es arbitrary: m) (simp_all add: store_each_def)

lemma store_each_key:
  "store_each key es m key = (if es = [] then m key else Some (elem_text (last es)))"
proof (induction es rule: rev_induct)
  case Nil
  show ?case by (simp add: store_each_def)
next
  case (snoc e es)
  show ?case by (simp add: store_each_snoc)
qed

text \<open>
  C6, as stated (the first occurrence of each element is kept), fails: with two title
  and two creator elements the returned metadata holds the text of the second of each.
\<close>

theorem parse_metadata_first_counterexample:
  "map elem_text (iter (dc_tag ''title'') two_titles) = [Some ''First'', Some ''Second'']
   \<and> parse_metadata two_titles ''title'' = Some (Some ''Second'')
   \<and> parse_metadata two_titles ''title'' \<noteq> Some (Some ''First'')
   \<and> map elem_text (iter (dc_tag ''creator'') two_titles) = [Some ''Ann'', Some ''Bob'']
   \<and> parse_metadata two_titles ''creator'' = Some (Some ''Bob'')"
  by (simp add: two_titles_def parse_metadata_def store_each_def iter_def dc_tag_def dc_ns_def)

text \<open>
  C6, amended: the metadata holds, for title and for creator, the text of the last
  occurrence of the element in document order, every earlier occurrence being
  overwritten; when the element is absent the field is unset, and nothing fails.
\<close>

theorem parse_metadata_last:
  "parse_metadata opf_root ''title'' =
     (if iter (dc_tag ''title'') opf_root = [] then None
      else Some (elem_text (last (iter (dc_tag ''title'') opf_root))))
   \<and> parse_metadata opf_root ''creator'' =
     (if iter (dc_tag ''creator'') opf_root = [] then None
      else Some (elem_text (last (iter (dc_tag ''creator'') opf_root))))"
  by (simp add: parse_metadata_def store_each_key store_each_other)

theorem parse_metadata_last_witness:
  "parse_metadata two_titles ''title'' = Some (Some ''Second'')
   \<and> parse_metadata two_titles ''creator'' = Some (Some ''Bob'')
   \<and> parse_metadata (Element ''package'' [] None []) ''title'' = None"
  using parse_metadata_last [of two_titles]
    parse_metadata_last [of "Element ''package'' [] None []"]
  by (simp add: two_titles_def iter_def dc_tag_def dc_ns_def)

section \<open>The stylesheet list\<close>

text \<open>
  C7: the stylesheet list of a flattened document (\<open>sorted(all_css)\<close>) has no
  duplicates, is in ascending lexicographic order of the resolved paths, and holds
  exactly the resolved paths that exist on disk and are referenced by a \<open>link\<close> tag
  of some chapter that reaches the document, however many chapters reference a path
  and in whatever order. In the example book \<open>css/style.css\<close> is referenced by three
  chapters and appears once, after \<open>css/base.css\<close>; \<open>css/gone.css\<close> is referenced
  but missing, and is left out.
\<close>

theorem stylesheets_sorted_unique:
  assumes "flatten np disk spine sc = Inr doc"
  shows "distinct (stylesheets doc) \<and> sorted (stylesheets doc)
     \<and> set (stylesheets doc) =
         {css. path_exists disk css \<and>
            (\<exists>e \<in> set (surviving disk sc (enumerate 0 spine)).
               \<exists>h \<in> set (css_hrefs (file_text disk (full_path (snd e)))).
                 css = np (path_join (dirname (full_path (snd e))) h))}"
proof -
  let ?S = "\<Union>e \<in> set (surviving disk sc (enumerate 0 spine)). survivor_css np disk e"
  have s: "stylesheets doc = sorted_list_of_set ?S"
    using flatten_survivors(2) [OF assms] .
  have "set (stylesheets doc) = ?S"
    unfolding s by (rule set_sorted_list_of_set) (rule finite_survivor_css)
  moreover have "?S = {css. path_exists disk css \<and>
            (\<exists>e \<in> set (surviving disk sc (enumerate 0 spine)).
               \<exists>h \<in> set (css_hrefs (file_text disk (full_path (snd e)))).
                 css = np (path_join (dirname (full_path (snd e))) h))}"
    unfolding set_eq_iff mem_Collect_eq UN_iff survivor_css_iff by blast
  ultimately show ?thesis
    unfolding s by simp
qed


theorem stylesheets_sorted_unique_witness:
  "\<exists>doc. flatten (\<lambda>p. p) book_disk book_spine True = Inr doc
     \<and> stylesheets doc = [''/b/css/base.css'', ''/b/css/style.css'']
     \<and> distinct (stylesheets doc) \<and> sorted (stylesheets doc)
     \<and> css_hrefs ch1_xhtml = [''css/style.css'']
     \<and> css_hrefs ch2_xhtml = [''css/style.css'', ''css/base.css'']
     \<and> css_hrefs ch3_xhtml = [''css/style.css'', ''css/gone.css'']"
proof -
  obtain doc where doc: "flatten (\<lambda>p. p) book_disk book_spine True = Inr doc"
    and css: "stylesheets doc = [''/b/css/base.css'', ''/b/css/style.css'']"
    using book_flattened_css by (cases "flatten (\<lambda>p. p) book_disk book_spine True") auto
  from stylesheets_sorted_unique [OF doc] show ?thesis
    using doc css book_css_hrefs by blast
qed

section \<open>Failure and cleanup\<close>

text \<open>
  C8. Whatever the collaborators do and however the run ends, after \<open>epub_to_pdf\<close> no
  path at or under the temporary extraction directory exists: the \<open>finally\<close> clause
  removes the tree (\<open>shutil.rmtree\<close> is taken to succeed). The cover PDF and the
  content PDF are written inside that directory. When the extracted archive has no
  \<open>META-INF/container.xml\<close> the run ends with the exception of line 37
  (\<open>FileNotFoundError\<close>, \<open>not a valid EPUB\<close>: the spec's MalformedArchive), and when
  the container descriptor has no \<open>rootfile\<close> element it ends with the exception of
  line 44 (\<open>ValueError\<close>: the spec's MissingPackageDocument).
\<close>

theorem temporary_directory_removed:
  "(\<forall>p. under (tempfile_mkdtemp env disk) p \<longrightarrow>
        snd (epub_to_pdf env disk epub_path pdf_path_arg) p = None)
   \<and> under (tempfile_mkdtemp env disk) (path_join (tempfile_mkdtemp env disk) ''_cover.pdf'')
   \<and> under (tempfile_mkdtemp env disk) (path_join (tempfile_mkdtemp env disk) ''_content.pdf'')
   \<and> (extract_epub env (disk(tempfile_mkdtemp env disk \<mapsto> Dir)) epub_path (tempfile_mkdtemp env disk)
         = (Inr (), d1)
       \<and> \<not> path_exists d1
           (path_join (path_join (tempfile_mkdtemp env disk) ''META-INF'') ''container.xml'') \<longrightarrow>
       fst (epub_to_pdf env disk epub_path pdf_path_arg)
         = Inl (FileNotFoundError ''No META-INF/container.xml found - not a valid EPUB''))
   \<and> (extract_epub env (disk(tempfile_mkdtemp env disk \<mapsto> Dir)) epub_path (tempfile_mkdtemp env disk)
         = (Inr (), d1)
       \<and> et_parse (et_parse_text env) d1
           (path_join (path_join (tempfile_mkdtemp env disk) ''META-INF'') ''container.xml'')
           = Inr container
       \<and> find_descendant rootfile_tag container = None \<longrightarrow>
       fst (epub_to_pdf env disk epub_path pdf_path_arg)
         = Inl (ValueError ''No rootfile found in container.xml''))"
proof (intro conjI allI impI)
  fix p assume "under (tempfile_mkdtemp env disk) p"
  then show "snd (epub_to_pdf env disk epub_path pdf_path_arg) p = None"
    by (simp add: epub_to_pdf_def Let_def rmtree_def)
next
  show "under (tempfile_mkdtemp env disk) (path_join (tempfile_mkdtemp env disk) ''_cover.pdf'')"
    by (rule under_join) simp
next
  show "under (tempfile_mkdtemp env disk) (path_join (tempfile_mkdtemp env disk) ''_content.pdf'')"
    by (rule under_join) simp
next
  assume "extract_epub env (disk(tempfile_mkdtemp env disk \<mapsto> Dir)) epub_path (tempfile_mkdtemp env disk)
         = (Inr (), d1)
       \<and> \<not> path_exists d1
           (path_join (path_join (tempfile_mkdtemp env disk) ''META-INF'') ''container.xml'')"
  then show "fst (epub_to_pdf env disk epub_path pdf_path_arg)
         = Inl (FileNotFoundError ''No META-INF/container.xml found - not a valid EPUB'')"
    using convert_steps_no_container [of env "disk(tempfile_mkdtemp env disk \<mapsto> Dir)" epub_path
        "tempfile_mkdtemp env disk" d1]
    by (simp add: epub_to_pdf_def Let_def)
next
  assume "extract_epub env (disk(tempfile_mkdtemp env disk \<mapsto> Dir)) epub_path (tempfile_mkdtemp env disk)
         = (Inr (), d1)
       \<and> et_parse (et_parse_text env) d1
           (path_join (path_join (tempfile_mkdtemp env disk) ''META-INF'') ''container.xml'')
           = Inr container
       \<and> find_descendant rootfile_tag container = None"
  then show "fst (epub_to_pdf env disk epub_path pdf_path_arg)
         = Inl (ValueError ''No rootfile found in container.xml'')"
    using convert_steps_no_rootfile [of env "disk(tempfile_mkdtemp env disk \<mapsto> Dir)" epub_path
        "tempfile_mkdtemp env disk" d1 container]
    by (simp add: epub_to_pdf_def Let_def)
qed


theorem temporary_directory_removed_witness:
  "fst (epub_to_pdf (stub_env extract_no_container) Map.empty ''/in/book.epub'' None)
     = Inl (FileNotFoundError ''No META-INF/container.xml found - not a valid EPUB'')
   \<and> snd (epub_to_pdf (stub_env extract_no_container) Map.empty ''/in/book.epub'' None)
       ''/tmp/epub2pdf_extract_x'' = None
   \<and> snd (epub_to_pdf (stub_env extract_no_container) Map.empty ''/in/book.epub'' None)
       ''/tmp/epub2pdf_extract_x/mimetype'' = None
   \<and> fst (epub_to_pdf (stub_env extract_bare_container) Map.empty ''/in/book.epub'' None)
     = Inl (ValueError ''No rootfile found in container.xml'')
   \<and> snd (epub_to_pdf (stub_env extract_bare_container) Map.empty ''/in/book.epub'' None)
       ''/tmp/epub2pdf_extract_x/META-INF/container.xml'' = None"
proof -
  let ?d = "''/tmp/epub2pdf_extract_x''"
  have d1: "tempfile_mkdtemp (stub_env extract_no_container) Map.empty = ?d"
    and d2: "tempfile_mkdtemp (stub_env extract_bare_container) Map.empty = ?d"
    by (simp_all add: stub_env_def)
  have u: "under ?d ?d" "under ?d ''/tmp/epub2pdf_extract_x/mimetype''"
    "under ?d ''/tmp/epub2pdf_extract_x/META-INF/container.xml''"
    by (simp_all add: under_def path_join_def suffix_to_prefix)
  have nc: "\<not> path_exists (Map.empty(?d \<mapsto> Dir,
          ''/tmp/epub2pdf_extract_x/mimetype'' \<mapsto> File ''application/epub+zip''))
        (path_join (path_join ?d ''META-INF'') ''container.xml'')"
    by (simp add: path_exists_def path_join_def suffix_to_prefix)
  have pc: "et_parse (et_parse_text (stub_env extract_bare_container))
        (Map.empty(?d \<mapsto> Dir, ''/tmp/epub2pdf_extract_x/META-INF'' \<mapsto> Dir,
          ''/tmp/epub2pdf_extract_x/META-INF/container.xml'' \<mapsto> File ''<container/>''))
        (path_join (path_join ?d ''META-INF'') ''container.xml'') = Inr container_root"
    by (simp add: et_parse_def path_join_def stub_env_def suffix_to_prefix)
  have nr: "find_descendant rootfile_tag container_root = None"
    by (simp add: find_descendant_def container_root_def)
  note t1 = temporary_directory_removed [of "stub_env extract_no_container" Map.empty
      "''/in/book.epub''" None, unfolded d1]
  note t2 = temporary_directory_removed [of "stub_env extract_bare_container" Map.empty
      "''/in/book.epub''" None _ container_root, unfolded d2]
  show ?thesis
    using t1 t2 u nc pc nr run_no_container [unfolded d1] run_bare_container [unfolded d2]
    by blast
qed

section \<open>Cover synthesis at the default trim\<close>

lemma default_page_px:
  "py_int (fl (11 / 2 * of_int 150)) = 825" "py_int (fl (17 / 2 * of_int 150)) = 1275"
  by code_simp+

lemma fit_exact_aspect:
  "fit_to_page 825 1275 (fl (11 / 17)) =
     Inr \<lparr>page_w_px = 825, page_h_px = 1275, new_w = 825, new_h = 1275, left = 0, top = 0\<rparr>"
  by code_simp

lemma fit_double_width:
  "fit_to_page 825 1275 (fl (22 / 17)) =
     Inr \<lparr>page_w_px = 825, page_h_px = 1275, new_w = 1650, new_h = 1275, left = 412, top = 0\<rparr>"
  by code_simp

lemma default_cover_layout_aspect:
  assumes "img_h \<noteq> 0"
  shows "default_cover_layout img_w img_h = fit_to_page 825 1275 (fl (of_int img_w / of_int img_h))"
  unfolding default_cover_layout_def create_cover_pdf_layout_def int_truediv_def Let_def
  by (simp only: default_page_px assms if_False sum.case)

text \<open>
  C9, as stated, fails in its second half: the image 1650 by 1275, twice the target
  width at the target height, is resized to itself and cropped by 412 columns on the
  left and 413 on the right.
\<close>

theorem double_width_symmetric_counterexample:
  "map_sum id (\<lambda>g. (new_w g, new_h g, cropped_left g, cropped_right g)) (default_cover_layout 1650 1275)
     = Inr (1650, 1275, 412, 413)"
  by code_simp

text \<open>
  C9, amended: at the default 5.5in by 8.5in trim and 150 DPI the page is 825 by 1275
  pixels; an image whose aspect ratio equals the page's (11k by 17k pixels) is resized
  to exactly 825 by 1275 and nothing is cropped on any side; an image of twice that
  aspect ratio (22k by 17k pixels) is resized to 1650 by 1275 and cropped by 412
  columns on the left and 413 on the right, since the surplus of 825 columns is odd.
\<close>

theorem cover_layout_default_trim:
  assumes "0 < k"
  shows "(\<exists>g. default_cover_layout (11 * k) (17 * k) = Inr g
           \<and> new_w g = 825 \<and> new_h g = 1275
           \<and> crop_box g = (0, 0, 825, 1275)
           \<and> cropped_left g = 0 \<and> cropped_right g = 0
           \<and> cropped_top g = 0 \<and> cropped_bottom g = 0)
       \<and> (\<exists>g. default_cover_layout (22 * k) (17 * k) = Inr g
           \<and> new_w g = 1650 \<and> new_h g = 1275
           \<and> crop_box g = (412, 0, 1237, 1275)
           \<and> cropped_left g = 412 \<and> cropped_right g = 413
           \<and> cropped_top g = 0 \<and> cropped_bottom g = 0)"
proof -
  have a1: "(of_int (11 * k) :: rat) / of_int (17 * k) = 11 / 17"
    using assms by simp
  have a2: "(of_int (22 * k) :: rat) / of_int (17 * k) = 22 / 17"
    using assms by simp
  have nz: "17 * k \<noteq> 0"
    using assms by simp
  have exact: "default_cover_layout (11 * k) (17 * k) =
      Inr \<lparr>page_w_px = 825, page_h_px = 1275, new_w = 825, new_h = 1275, left = 0, top = 0\<rparr>"
    by (simp only: default_cover_layout_aspect [OF nz] a1 fit_exact_aspect)
  have double: "default_cover_layout (22 * k) (17 * k) =
      Inr \<lparr>page_w_px = 825, page_h_px = 1275, new_w = 1650, new_h = 1275, left = 412, top = 0\<rparr>"
    by (simp only: default_cover_layout_aspect [OF nz] a2 fit_double_width)
  show ?thesis
    unfolding exact double
    by (simp add: crop_box_def cropped_left_def cropped_right_def cropped_top_def
        cropped_bottom_def)
qed

theorem cover_layout_default_trim_witness:
  "(0::int) < 75
   \<and> (\<exists>g. default_cover_layout 825 1275 = Inr g
           \<and> new_w g = 825 \<and> new_h g = 1275
           \<and> crop_box g = (0, 0, 825, 1275)
           \<and> cropped_left g = 0 \<and> cropped_right g = 0
           \<and> cropped_top g = 0 \<and> cropped_bottom g = 0)
   \<and> (\<exists>g. default_cover_layout 1650 1275 = Inr g
           \<and> new_w g = 1650 \<and> new_h g = 1275
           \<and> crop_box g = (412, 0, 1237, 1275)
           \<and> cropped_left g = 412 \<and> cropped_right g = 413
           \<and> cropped_top g = 0 \<and> cropped_bottom g = 0)"
proof -
  have pos: "(0::int) < 75" by simp
  show ?thesis
    using cover_layout_default_trim [OF pos] pos by simp
qed


section \<open>Single-quoted links\<close>




end
